theory Spec2Isabelle
  imports Main "HOL-Library.Word"
begin

unbundle bit_operations_syntax

section \<open>Machine model\<close>

text \<open>
  The program is C for a POSIX system (it uses \<^verbatim>\<open>getopt_long\<close>). The embedding fixes the
  LP64 data model of 64-bit Unix: \<^verbatim>\<open>int\<close> is a 32-bit two's complement value,
  \<^verbatim>\<open>long\<close> and \<^verbatim>\<open>unsigned long\<close> are 64 bits wide, \<^verbatim>\<open>unsigned char\<close> is 8 bits.
  A left shift of an \<^verbatim>\<open>int\<close> that reaches the sign bit wraps, as GCC and Clang
  implement (and GCC documents) it. Converting an \<^verbatim>\<open>int\<close> to \<^verbatim>\<open>unsigned long\<close>
  keeps its value modulo \<open>2 ^ 64\<close>, which is sign extension (\<open>scast\<close>).

  File sizes and buffer positions (\<^verbatim>\<open>long\<close>, never negative once \<^verbatim>\<open>ftell\<close> has
  succeeded) are modelled as \<open>int\<close>: on a non-negative \<open>int\<close> the operations
  \<open>AND\<close>, \<open>OR\<close>, \<open>drop_bit\<close>, \<open>div\<close> and \<open>mod\<close> are those of C, and no size the
  theorems speak about comes near \<open>2 ^ 63\<close>.
\<close>

type_synonym byte = "8 word"
type_synonym c_int = "32 word"
type_synonym ulong = "64 word"

text \<open>
  \<^verbatim>\<open>(1 << n)\<close> as it is used in \<^verbatim>\<open>word & (1 << n)\<close> and \<^verbatim>\<open>bitsFound | (1 << n)\<close>:
  the shift is done on \<^verbatim>\<open>int\<close>, the result is then converted to \<^verbatim>\<open>unsigned long\<close>.
  C defines the shift for \<open>0 \<le> n < 32\<close> only; every use below stays in that range.
\<close>

definition int_bit :: "int \<Rightarrow> ulong" where
  "int_bit n = scast (push_bit (nat n) (1 :: c_int))"

section \<open>swizzleWord\<close>

text \<open>
  \<^verbatim>\<open>
  static unsigned long swizzleWord(unsigned long word, const int *bits, int count)
  {
      long out = 0;
      for (int i = 0; i < count; i++)
      {
          if (bits[i] >= i)
              out |= (word & (1 << bits[i])) >> (bits[i] - i);
          else
              out |= (word & (1 << bits[i])) << (i - bits[i]);
      }
      return out;
  }
  \<close>
  The table is a list of C \<^verbatim>\<open>int\<close> values. The loop reads \<open>bits ! i\<close> for \<open>i < count\<close>;
  the caller passes a 32-element array and \<open>count \<le> 32\<close>.
\<close>

definition swizzleWord_step :: "ulong \<Rightarrow> int list \<Rightarrow> nat \<Rightarrow> ulong \<Rightarrow> ulong" where
  "swizzleWord_step word bits i out =
     (if bits ! i \<ge> int i
      then out OR drop_bit (nat (bits ! i - int i)) (word AND int_bit (bits ! i))
      else out OR push_bit (nat (int i - bits ! i)) (word AND int_bit (bits ! i)))"

function swizzleWord_loop :: "ulong \<Rightarrow> int list \<Rightarrow> nat \<Rightarrow> nat \<Rightarrow> ulong \<Rightarrow> ulong" where
  "swizzleWord_loop word bits count i out =
     (if i < count
      then swizzleWord_loop word bits count (Suc i) (swizzleWord_step word bits i out)
      else out)"
  by pat_completeness auto
termination
  by (relation "measure (\<lambda>(word, bits, count, i, out). count - i)") auto

declare swizzleWord_loop.simps [simp del]

definition swizzleWord :: "ulong \<Rightarrow> int list \<Rightarrow> int \<Rightarrow> ulong" where
  "swizzleWord word bits count = swizzleWord_loop word bits (nat count) 0 0"

section \<open>Diagnostics\<close>

text \<open>
  \<^verbatim>\<open>error(fmt, ...)\<close> prints its message and calls \<^verbatim>\<open>exit(1)\<close>: a value of type
  \<open>error\<close> carrying the arguments of the message. \<^verbatim>\<open>fprintf(stderr, "warning: ...")\<close>
  is a value of type \<open>warning\<close> appended to the diagnostic stream, and the run goes on.
  \<open>OutOfBounds\<close> is not a message of the program: it marks an access outside a
  \<^verbatim>\<open>calloc\<close>'ed buffer, where C leaves the behaviour undefined.
\<close>

datatype error =
    OpenReadError
  | OpenWriteError
  | SizeError
  | InvalidBitIndex string int int
  | BitCountMismatch int string int
  | AddressWidthError
  | AllocError
  | ReadError
  | WriteError
  | OutOfBounds

datatype warning =
    DuplicateBitIndex string int
  | NonPowerOfTwoSize int
  | UnalignedSize int

section \<open>The C library functions used by parseBits\<close>

text \<open>
  \<^verbatim>\<open>strtok(bits, ",")\<close> followed by \<^verbatim>\<open>strtok(NULL, ",")\<close> until it returns
  \<^verbatim>\<open>NULL\<close> yields the maximal non-empty runs of characters other than the comma, in
  order. \<open>cur\<close> is the token being read.
\<close>

fun strtok_from :: "string \<Rightarrow> string \<Rightarrow> string list" where
  "strtok_from cur [] = (if cur = [] then [] else [cur])"
| "strtok_from cur (c # cs) =
     (if c = CHR '','' then (if cur = [] then strtok_from [] cs else cur # strtok_from [] cs)
      else strtok_from (cur @ [c]) cs)"

definition strtok_all :: "string \<Rightarrow> string list" where
  "strtok_all s = strtok_from [] s"

text \<open>
  \<^verbatim>\<open>atoi(s)\<close> as in glibc, \<^verbatim>\<open>(int) strtol(s, NULL, 10)\<close>: leading white space is
  skipped, an optional sign is read, then the longest run of decimal digits (none gives
  0); the value saturates at the bounds of \<^verbatim>\<open>long\<close> and is truncated to \<^verbatim>\<open>int\<close>.
\<close>

definition isspace :: "char \<Rightarrow> bool" where
  "isspace c = (of_char c \<in> {32, 9, 10, 11, 12, 13 :: nat})"

definition isdigit :: "char \<Rightarrow> bool" where
  "isdigit c = (48 \<le> (of_char c :: nat) \<and> (of_char c :: nat) \<le> 57)"

fun digits :: "int \<Rightarrow> string \<Rightarrow> int" where
  "digits acc [] = acc"
| "digits acc (c # cs) =
     (if isdigit c then digits (10 * acc + (of_char c - 48)) cs else acc)"

definition strtol :: "string \<Rightarrow> int" where
  "strtol s =
     (let t = dropWhile isspace s;
          v = (case t of
                 [] \<Rightarrow> 0
               | c # cs \<Rightarrow>
                   if c = CHR ''-'' then - digits 0 cs
                   else if c = CHR ''+'' then digits 0 cs
                   else digits 0 t)
      in max (- (2 ^ 63)) (min (2 ^ 63 - 1) v))"

definition atoi :: "string \<Rightarrow> int" where
  "atoi s = sint (word_of_int (strtol s) :: c_int)"

section \<open>parseBits\<close>

text \<open>
  \<^verbatim>\<open>
  static void parseBits(char *bits, int *dest, int count, const char *type)
  {
      int pos = count;
      unsigned long bitsFound = 0;
      char *bit = strtok(bits, ",");
      while (bit)
      {
          const int index = atoi(bit);
          if (pos > 0)
              dest[pos - 1] = index;
          if (index < 0 || index >= count)
              error("invalid %s bit index %d (must be between 0 and %d)\n", type, index, count - 1);
          if (bitsFound & (1 << index))
              fprintf(stderr, "warning: %s bit index %d specified multiple times\n", type, index);
          bitsFound |= (1 << index);
          bit = strtok(NULL, ",");
          pos--;
      }
      if (pos != 0)
          error("expected %d %s bits, but %d were specified\n", count, type, count - pos);
  }
  \<close>
  The state of the function: the array behind \<^verbatim>\<open>dest\<close>, the two locals, the diagnostic
  stream, and the list of the indices at which \<^verbatim>\<open>dest\<close> was stored to, in order (the
  store itself is \<open>list_update\<close>, which would hide a store outside the array).
\<close>

record parse_state =
  dest_of :: "int list"
  pos_of :: int
  bitsFound_of :: ulong
  stderr_of :: "warning list"
  stores_of :: "int list"

definition store_index :: "int \<Rightarrow> parse_state \<Rightarrow> parse_state" where
  "store_index index s =
     (if pos_of s > 0
      then s\<lparr>dest_of := (dest_of s)[nat (pos_of s - 1) := index],
             stores_of := stores_of s @ [pos_of s - 1]\<rparr>
      else s)"

definition note_index :: "string \<Rightarrow> int \<Rightarrow> parse_state \<Rightarrow> parse_state" where
  "note_index type index s =
     (let s' = (if bitsFound_of s AND int_bit index \<noteq> 0
                then s\<lparr>stderr_of := stderr_of s @ [DuplicateBitIndex type index]\<rparr>
                else s)
      in s'\<lparr>bitsFound_of := bitsFound_of s' OR int_bit index, pos_of := pos_of s' - 1\<rparr>)"

fun parseBits_loop ::
  "string list \<Rightarrow> int \<Rightarrow> string \<Rightarrow> parse_state \<Rightarrow> error option \<times> parse_state" where
  "parseBits_loop [] count type s = (None, s)"
| "parseBits_loop (tok # rest) count type s =
     (let index = atoi tok;
          s1 = store_index index s
      in if index < 0 \<or> index \<ge> count
         then (Some (InvalidBitIndex type index (count - 1)), s1)
         else parseBits_loop rest count type (note_index type index s1))"

definition parseBits ::
  "string \<Rightarrow> int list \<Rightarrow> int \<Rightarrow> string \<Rightarrow> error option \<times> parse_state" where
  "parseBits bits dest count type =
     (case parseBits_loop (strtok_all bits) count type
             \<lparr>dest_of = dest, pos_of = count, bitsFound_of = 0, stderr_of = [], stores_of = []\<rparr> of
        (Some e, s) \<Rightarrow> (Some e, s)
      | (None, s) \<Rightarrow>
          if pos_of s \<noteq> 0
          then (Some (BitCountMismatch count type (count - pos_of s)), s)
          else (None, s))"

section \<open>The driver\<close>

text \<open>
  \<^verbatim>\<open>swizzle_t\<close>: a spec that was not given is the \<^verbatim>\<open>NULL\<close> pointer (\<open>None\<close>). The two
  paths only name the files; the files themselves are the environment below.
  \<^verbatim>\<open>main\<close> admits \<^verbatim>\<open>bytesPerWord\<close> from 1 to 4 only and sets \<^verbatim>\<open>bigEndian\<close> to 0 or 1.
\<close>

record swizzle_t =
  addrBits :: "string option"
  dataBits :: "string option"
  bytesPerWord :: int
  bigEndian :: bool

text \<open>
  What the operating system answers: the contents of the input file (\<open>None\<close> when
  \<^verbatim>\<open>fopen\<close> fails) and whether each later call succeeds.
\<close>

record env =
  inFile :: "byte list option"
  outFile_ok :: bool
  ftell_ok :: bool
  calloc_ok :: bool
  fread_ok :: bool
  fwrite_ok :: bool

subsection \<open>Geometry\<close>

text \<open>
  \<^verbatim>\<open>
  if (opts->addrBits && (inSize & (inSize - 1)))
  {
      // if we're swizzling address bits, then size must be a power of two
      fprintf(stderr, "warning: non-power-of-two input size (%ld bytes)\n", inSize);
      inSize |= inSize >> 1;
      inSize |= inSize >> 2;
      inSize |= inSize >> 4;
      inSize |= inSize >> 8;
      inSize |= inSize >> 16;
      inSize++;
  }
  \<close>
\<close>

definition smear :: "int \<Rightarrow> int" where
  "smear n =
     (let a = n OR drop_bit 1 n;
          b = a OR drop_bit 2 a;
          c = b OR drop_bit 4 b;
          d = c OR drop_bit 8 c
      in d OR drop_bit 16 d)"

definition pad_pow2 :: "swizzle_t \<Rightarrow> int \<Rightarrow> int \<times> warning list" where
  "pad_pow2 opts inSize =
     (if addrBits opts \<noteq> None \<and> inSize AND (inSize - 1) \<noteq> 0
      then (smear inSize + 1, [NonPowerOfTwoSize inSize])
      else (inSize, []))"

text \<open>
  \<^verbatim>\<open>
  if (inSize % opts->bytesPerWord)
  {
      fprintf(stderr, "warning: input size is not a multiple of %d bytes\n", opts->bytesPerWord);
      inSize += (opts->bytesPerWord - 1);
      inSize &= ~(opts->bytesPerWord - 1);
  }
  \<close>
\<close>

definition pad_word :: "swizzle_t \<Rightarrow> int \<Rightarrow> int \<times> warning list" where
  "pad_word opts inSize =
     (if inSize mod bytesPerWord opts \<noteq> 0
      then ((inSize + (bytesPerWord opts - 1)) AND NOT (bytesPerWord opts - 1),
            [UnalignedSize (bytesPerWord opts)])
      else (inSize, []))"

text \<open>
  \<^verbatim>\<open>(int)log2(inSize / opts->bytesPerWord)\<close>. The quotient is an integer; for a positive
  one below \<open>2 ^ 53\<close> the conversion to \<^verbatim>\<open>double\<close> is exact and the truncated
  logarithm is the position of its highest set bit (\<open>ilog2\<close>). A larger quotient gives
  more than 32 in C as it does here, and the check on the address width rejects it.
  \<^verbatim>\<open>log2(0)\<close> is minus infinity, whose conversion to \<^verbatim>\<open>int\<close> gives \<^verbatim>\<open>INT_MIN\<close> on
  x86-64.
\<close>

function ilog2 :: "int \<Rightarrow> int" where
  "ilog2 q = (if q < 2 then 0 else 1 + ilog2 (q div 2))"
  by pat_completeness auto
termination
  by (relation "measure nat") auto

declare ilog2.simps [simp del]

definition log2_trunc :: "int \<Rightarrow> int" where
  "log2_trunc q = (if q \<le> 0 then - (2 ^ 31) else ilog2 q)"

subsection \<open>Parsing the two tables\<close>

text \<open>
  \<^verbatim>\<open>
  int addrBits[32] = {0};
  int dataBits[32] = {0};
  if (opts->addrBits)
      parseBits(opts->addrBits, addrBits, numAddrBits, "address");
  if (opts->dataBits)
      parseBits(opts->dataBits, dataBits, numDataBits, "data");
  \<close>
\<close>

definition parse_table ::
  "string option \<Rightarrow> int \<Rightarrow> string \<Rightarrow> (error + int list) \<times> warning list" where
  "parse_table spec count type =
     (case spec of
        None \<Rightarrow> (Inr (replicate 32 0), [])
      | Some bits \<Rightarrow>
          (case parseBits bits (replicate 32 0) count type of
             (Some e, s) \<Rightarrow> (Inl e, stderr_of s)
           | (None, s) \<Rightarrow> (Inr (dest_of s), stderr_of s)))"

subsection \<open>The transformation loop\<close>

text \<open>
  \<^verbatim>\<open>
  unsigned long data = 0;
  if (opts->bigEndian)
      for (int i = 0; i < opts->bytesPerWord; i++)
          data |= (inData[pos + i] << (8 * (opts->bytesPerWord - i - 1)));
  else
      for (int i = 0; i < opts->bytesPerWord; i++)
          data |= (inData[pos + i] << (8 * i));
  \<close>
  The byte is promoted to \<^verbatim>\<open>int\<close>, shifted as an \<^verbatim>\<open>int\<close>, and the result converted to
  \<^verbatim>\<open>unsigned long\<close> for the \<^verbatim>\<open>|=\<close>.
\<close>

definition byte_shift :: "swizzle_t \<Rightarrow> nat \<Rightarrow> nat" where
  "byte_shift opts i =
     (if bigEndian opts then 8 * (nat (bytesPerWord opts) - i - 1) else 8 * i)"

definition assemble :: "swizzle_t \<Rightarrow> byte list \<Rightarrow> int \<Rightarrow> ulong" where
  "assemble opts inData pos =
     fold (\<lambda>i data. data OR scast (push_bit (byte_shift opts i) (ucast (inData ! (nat pos + i)) :: c_int)))
          [0..<nat (bytesPerWord opts)] 0"

text \<open>
  \<^verbatim>\<open>
  if (opts->bigEndian)
      for (int i = 0; i < opts->bytesPerWord; i++)
          outData[outAddr + i] = data >> (8 * (opts->bytesPerWord - i - 1));
  else
      for (int i = 0; i < opts->bytesPerWord; i++)
          outData[outAddr + i] = data >> (8 * i);
  \<close>
\<close>

definition disassemble :: "swizzle_t \<Rightarrow> ulong \<Rightarrow> int \<Rightarrow> byte list \<Rightarrow> byte list" where
  "disassemble opts data outAddr outData =
     fold (\<lambda>i out. out[nat outAddr + i := ucast (drop_bit (byte_shift opts i) data)])
          [0..<nat (bytesPerWord opts)] outData"

text \<open>
  One pass through the body of the \<^verbatim>\<open>for (long pos = 0; ...)\<close> loop. Both buffers hold
  \<^verbatim>\<open>inSize\<close> bytes; a read or a store outside them is \<open>OutOfBounds\<close>.
  \<^verbatim>\<open>
  long outAddr = pos;
  if (opts->addrBits)
      outAddr = opts->bytesPerWord * swizzleWord(pos / opts->bytesPerWord, addrBits, numAddrBits);
  ...
  if (opts->dataBits)
      data = swizzleWord(data, dataBits, numDataBits);
  \<close>
\<close>

definition out_addr :: "swizzle_t \<Rightarrow> int list \<Rightarrow> int \<Rightarrow> int \<Rightarrow> int" where
  "out_addr opts addrTable numAddrBits pos =
     (if addrBits opts \<noteq> None
      then sint (word_of_int (bytesPerWord opts)
                 * swizzleWord (word_of_int (pos div bytesPerWord opts)) addrTable numAddrBits)
      else pos)"

definition word_data :: "swizzle_t \<Rightarrow> int list \<Rightarrow> int \<Rightarrow> byte list \<Rightarrow> int \<Rightarrow> ulong" where
  "word_data opts dataTable numDataBits inData pos =
     (if dataBits opts \<noteq> None
      then swizzleWord (assemble opts inData pos) dataTable numDataBits
      else assemble opts inData pos)"

definition swizzle_body ::
  "swizzle_t \<Rightarrow> int list \<Rightarrow> int list \<Rightarrow> int \<Rightarrow> int \<Rightarrow> byte list \<Rightarrow> int \<Rightarrow> byte list
     \<Rightarrow> error + byte list" where
  "swizzle_body opts addrTable dataTable numAddrBits numDataBits inData pos outData =
     (let outAddr = out_addr opts addrTable numAddrBits pos
      in if int (length inData) < pos + bytesPerWord opts then Inl OutOfBounds
         else if outAddr < 0 \<or> int (length outData) < outAddr + bytesPerWord opts
         then Inl OutOfBounds
         else Inr (disassemble opts (word_data opts dataTable numDataBits inData pos)
                     outAddr outData))"

text \<open>
  The loop \<^verbatim>\<open>for (long pos = 0; pos < inSize; pos += opts->bytesPerWord)\<close>. With
  \<^verbatim>\<open>bytesPerWord\<close> below 1, which \<^verbatim>\<open>main\<close> excludes, the C loop would not advance; the
  first conjunct of the test keeps the recursion total and is true on every run of the
  program.
\<close>

function swizzle_loop ::
  "swizzle_t \<Rightarrow> int list \<Rightarrow> int list \<Rightarrow> int \<Rightarrow> int \<Rightarrow> int \<Rightarrow> byte list \<Rightarrow> int \<Rightarrow> byte list
     \<Rightarrow> error + byte list" where
  "swizzle_loop opts addrTable dataTable numAddrBits numDataBits inSize inData pos outData =
     (if 0 < bytesPerWord opts \<and> pos < inSize
      then (case swizzle_body opts addrTable dataTable numAddrBits numDataBits inData pos outData of
              Inl e \<Rightarrow> Inl e
            | Inr outData' \<Rightarrow>
                swizzle_loop opts addrTable dataTable numAddrBits numDataBits inSize inData
                  (pos + bytesPerWord opts) outData')
      else Inr outData)"
  by pat_completeness auto
termination
  by (relation "measure (\<lambda>(opts, addrTable, dataTable, numAddrBits, numDataBits, inSize, inData,
                            pos, outData). nat (inSize - pos))") auto

declare swizzle_loop.simps [simp del]

subsection \<open>swizzle\<close>

text \<open>
  The function in the order of the source: open both files, take the size, pad it, check
  the address width, parse the tables, allocate and read (\<open>read_input\<close>: \<^verbatim>\<open>calloc\<close>
  zero-fills \<^verbatim>\<open>inSize\<close> bytes, \<^verbatim>\<open>fread\<close> overwrites the first \<^verbatim>\<open>fileSize\<close> of them),
  transform, write \<^verbatim>\<open>inSize\<close> bytes. The result is the error or the bytes written, and
  the diagnostic stream.
\<close>

definition read_input :: "byte list \<Rightarrow> int \<Rightarrow> byte list" where
  "read_input file inSize = file @ replicate (nat inSize - length file) 0"

definition transform ::
  "swizzle_t \<Rightarrow> env \<Rightarrow> byte list \<Rightarrow> int \<Rightarrow> int \<Rightarrow> int \<Rightarrow> int list \<Rightarrow> int list \<Rightarrow> error + byte list" where
  "transform opts e file inSize numAddrBits numDataBits addrTable dataTable =
     (if \<not> calloc_ok e then Inl AllocError
      else if \<not> fread_ok e then Inl ReadError
      else
        (case swizzle_loop opts addrTable dataTable numAddrBits numDataBits inSize
                (read_input file inSize) 0 (replicate (nat inSize) 0) of
           Inl err \<Rightarrow> Inl err
         | Inr outData \<Rightarrow> if \<not> fwrite_ok e then Inl WriteError else Inr outData))"

definition swizzle :: "swizzle_t \<Rightarrow> env \<Rightarrow> (error + byte list) \<times> warning list" where
  "swizzle opts e =
     (case inFile e of
        None \<Rightarrow> (Inl OpenReadError, [])
      | Some file \<Rightarrow>
          if \<not> outFile_ok e then (Inl OpenWriteError, [])
          else if \<not> ftell_ok e then (Inl SizeError, [])
          else
            (let fileSize = int (length file);
                 (size1, w1) = pad_pow2 opts fileSize;
                 (inSize, w2) = pad_word opts size1;
                 numAddrBits = log2_trunc (inSize div bytesPerWord opts);
                 numDataBits = 8 * bytesPerWord opts
             in if numAddrBits < 1 \<or> numAddrBits > 32
                then (Inl AddressWidthError, w1 @ w2)
                else
                  (case parse_table (addrBits opts) numAddrBits ''address'' of
                     (Inl err, w3) \<Rightarrow> (Inl err, w1 @ w2 @ w3)
                   | (Inr addrTable, w3) \<Rightarrow>
                       (case parse_table (dataBits opts) numDataBits ''data'' of
                          (Inl err, w4) \<Rightarrow> (Inl err, w1 @ w2 @ w3 @ w4)
                        | (Inr dataTable, w4) \<Rightarrow>
                            (transform opts e file inSize numAddrBits numDataBits
                               addrTable dataTable,
                             w1 @ w2 @ w3 @ w4)))))"

section \<open>Notions used in the statements\<close>

text \<open>A token whose index \<^verbatim>\<open>parseBits\<close> rejects, and one it accepts.\<close>

definition out_of_range :: "int \<Rightarrow> string \<Rightarrow> bool" where
  "out_of_range count tok = (atoi tok < 0 \<or> count \<le> atoi tok)"

definition in_range :: "int \<Rightarrow> string \<Rightarrow> bool" where
  "in_range count tok = (0 \<le> atoi tok \<and> atoi tok < count)"

fun is_invalid_index :: "error option \<Rightarrow> bool" where
  "is_invalid_index (Some (InvalidBitIndex type index hi)) = True"
| "is_invalid_index e = False"

fun is_count_mismatch :: "error option \<Rightarrow> bool" where
  "is_count_mismatch (Some (BitCountMismatch count type found)) = True"
| "is_count_mismatch e = False"

text \<open>
  The tokens the loop of \<^verbatim>\<open>parseBits\<close> gets to: all of them, or those up to and
  including the first one that is out of range.
\<close>

fun tokens_read :: "int \<Rightarrow> string list \<Rightarrow> string list" where
  "tokens_read count [] = []"
| "tokens_read count (t # ts) = t # (if out_of_range count t then [] else tokens_read count ts)"

text \<open>The slots \<open>pos - 1\<close>, \<open>pos - 2\<close>, ... taken by \<open>n\<close> tokens, never below slot 0.\<close>

definition store_trace :: "int \<Rightarrow> nat \<Rightarrow> int list" where
  "store_trace pos n = map (\<lambda>k. pos - 1 - int k) [0..<min (nat pos) n]"

text \<open>The indices of a list that already occurred before (or in \<open>seen\<close>), in order.\<close>

fun repeats_from :: "int list \<Rightarrow> int list \<Rightarrow> int list" where
  "repeats_from seen [] = []"
| "repeats_from seen (x # xs) =
     (if x \<in> set seen then x # repeats_from (x # seen) xs else repeats_from (x # seen) xs)"

text \<open>A power of two, decided by halving.\<close>

function is_pow2 :: "int \<Rightarrow> bool" where
  "is_pow2 n = (if n \<le> 1 then n = 1 else even n \<and> is_pow2 (n div 2))"
  by pat_completeness auto
termination
  by (relation "measure nat") auto

declare is_pow2.simps [simp del]

text \<open>What the bit mask \<^verbatim>\<open>bitsFound\<close> records about the indices seen so far.\<close>

definition seen_inv :: "ulong \<Rightarrow> int list \<Rightarrow> bool" where
  "seen_inv bf seen = (\<forall>j. 0 \<le> j \<and> j < 32 \<longrightarrow> (bf AND int_bit j \<noteq> 0 \<longleftrightarrow> j \<in> set seen))"

text \<open>An environment in which every call to the operating system succeeds.\<close>

definition all_ok :: "env \<Rightarrow> byte list \<Rightarrow> bool" where
  "all_ok e file =
     (inFile e = Some file \<and> outFile_ok e \<and> ftell_ok e \<and> calloc_ok e \<and> fread_ok e \<and> fwrite_ok e)"

text \<open>The next multiple of \<open>b\<close> that is not below \<open>n\<close>.\<close>

definition round_up :: "int \<Rightarrow> int \<Rightarrow> int" where
  "round_up b n = ((n + b - 1) div b) * b"

text \<open>
  The arrays \<^verbatim>\<open>parseBits\<close> leaves for the specs \<^verbatim>\<open>0,1,...,7\<close> (8 data bits) and
  \<^verbatim>\<open>0,1,...,31\<close> (32 data bits): the first token lands in the highest slot.
\<close>

definition reversal8 :: "int list" where
  "reversal8 = [7, 6, 5, 4, 3, 2, 1, 0] @ replicate 24 0"

definition reversal32 :: "int list" where
  "reversal32 = [31, 30, 29, 28, 27, 26, 25, 24, 23, 22, 21, 20, 19, 18, 17, 16,
                 15, 14, 13, 12, 11, 10, 9, 8, 7, 6, 5, 4, 3, 2, 1, 0]"

text \<open>
  A word as the specification describes it: the bytes of a word, in the configured byte
  order, are one unsigned integer; the word written is that value, permuted by
  \<^verbatim>\<open>swizzleWord\<close> when a data permutation is active, taken apart in the same byte order.
\<close>

fun le_value :: "byte list \<Rightarrow> ulong" where
  "le_value [] = 0"
| "le_value (b # bs) = ucast b + 256 * le_value bs"

definition spec_word_value :: "bool \<Rightarrow> byte list \<Rightarrow> ulong" where
  "spec_word_value big bytes = le_value (if big then rev bytes else bytes)"

definition spec_word_bytes :: "bool \<Rightarrow> nat \<Rightarrow> ulong \<Rightarrow> byte list" where
  "spec_word_bytes big n v =
     (let le = map (\<lambda>i. ucast (drop_bit (8 * i) v)) [0..<n] in if big then rev le else le)"

definition spec_word :: "swizzle_t \<Rightarrow> int list \<Rightarrow> byte list \<Rightarrow> byte list" where
  "spec_word opts dataTable bytes =
     spec_word_bytes (bigEndian opts) (length bytes)
       (if dataBits opts \<noteq> None
        then swizzleWord (spec_word_value (bigEndian opts) bytes) dataTable (8 * int (length bytes))
        else spec_word_value (bigEndian opts) bytes)"

section \<open>Properties of parseBits\<close>

lemma loop_fst:
  "fst (parseBits_loop toks count type s) =
     (case find (out_of_range count) toks of
        Some tok \<Rightarrow> Some (InvalidBitIndex type (atoi tok) (count - 1))
      | None \<Rightarrow> None)"
  by (induction toks arbitrary: s) (auto simp: Let_def out_of_range_def)

lemma pos_store_index [simp]: "pos_of (store_index i s) = pos_of s"
  by (simp add: store_index_def)

lemma pos_note_index [simp]: "pos_of (note_index t i s) = pos_of s - 1"
  by (simp add: note_index_def Let_def)

lemma loop_pos:
  "find (out_of_range count) toks = None \<Longrightarrow>
   pos_of (snd (parseBits_loop toks count type s)) = pos_of s - int (length toks)"
  by (induction toks arbitrary: s) (auto simp: Let_def out_of_range_def)

lemma parseBits_outcome:
  "fst (parseBits bits dest count type) =
     (case find (out_of_range count) (strtok_all bits) of
        Some tok \<Rightarrow> Some (InvalidBitIndex type (atoi tok) (count - 1))
      | None \<Rightarrow>
          if int (length (strtok_all bits)) \<noteq> count
          then Some (BitCountMismatch count type (int (length (strtok_all bits))))
          else None)"
proof (cases "find (out_of_range count) (strtok_all bits)")
  case None
  let ?s0 = "\<lparr>dest_of = dest, pos_of = count, bitsFound_of = 0, stderr_of = [], stores_of = []\<rparr>"
  obtain r s where rs: "parseBits_loop (strtok_all bits) count type ?s0 = (r, s)"
    by (cases "parseBits_loop (strtok_all bits) count type ?s0")
  have "r = None" using loop_fst [of "strtok_all bits" count type ?s0] None rs by simp
  moreover have "pos_of s = count - int (length (strtok_all bits))"
    using loop_pos [OF None, of type ?s0] rs by simp
  ultimately show ?thesis using None rs by (simp add: parseBits_def)
next
  case (Some tok)
  let ?s0 = "\<lparr>dest_of = dest, pos_of = count, bitsFound_of = 0, stderr_of = [], stores_of = []\<rparr>"
  obtain r s where rs: "parseBits_loop (strtok_all bits) count type ?s0 = (r, s)"
    by (cases "parseBits_loop (strtok_all bits) count type ?s0")
  have "r = Some (InvalidBitIndex type (atoi tok) (count - 1))"
    using loop_fst [of "strtok_all bits" count type ?s0] Some rs by simp
  then show ?thesis using Some rs by (simp add: parseBits_def)
qed

lemma store_trace_0 [simp]: "store_trace pos 0 = []"
  by (simp add: store_trace_def)

lemma store_trace_Suc:
  "store_trace pos (Suc n) = (if pos > 0 then (pos - 1) # store_trace (pos - 1) n else [])"
proof (cases "pos > 0")
  case True
  then have m: "min (nat pos) (Suc n) = Suc (min (nat (pos - 1)) n)"
    by (simp add: min_def nat_diff_distrib') linarith
  show ?thesis using True
    unfolding store_trace_def m
    by (simp add: map_upt_Suc del: upt_Suc) 
next
  case False
  then show ?thesis by (simp add: store_trace_def)
qed

lemma store_trace_nonpos: "pos \<le> 0 \<Longrightarrow> store_trace pos n = []"
  by (simp add: store_trace_def)

lemma stores_store_index:
  "stores_of (store_index i s) = stores_of s @ (if pos_of s > 0 then [pos_of s - 1] else [])"
  by (simp add: store_index_def)

lemma stores_note_index [simp]: "stores_of (note_index t i s) = stores_of s"
  by (simp add: note_index_def Let_def)

lemma loop_stores:
  "stores_of (snd (parseBits_loop toks count type s)) =
     stores_of s @ store_trace (pos_of s) (length (tokens_read count toks))"
proof (induction toks arbitrary: s)
  case Nil
  then show ?case by simp
next
  case (Cons tok rest)
  show ?case
  proof (cases "out_of_range count tok")
    case True
    then show ?thesis
      by (simp add: Let_def out_of_range_def stores_store_index store_trace_Suc)
  next
    case False
    then have "parseBits_loop (tok # rest) count type s =
        parseBits_loop rest count type (note_index type (atoi tok) (store_index (atoi tok) s))"
      by (simp add: Let_def out_of_range_def)
    then show ?thesis using False Cons.IH [of "note_index type (atoi tok) (store_index (atoi tok) s)"]
      by (simp add: stores_store_index store_trace_Suc store_trace_nonpos)
  qed
qed

lemma length_tokens_read: "length (tokens_read count toks) \<le> length toks"
  by (induction toks) auto

lemma tokens_read_all:
  "find (out_of_range count) toks = None \<Longrightarrow> tokens_read count toks = toks"
  by (induction toks) auto

lemma store_trace_bounds:
  "p \<in> set (store_trace pos n) \<Longrightarrow> 0 \<le> p \<and> pos - int n \<le> p \<and> p \<le> pos - 1"
  by (auto simp: store_trace_def)

lemma snd_parseBits:
  "snd (parseBits bits dest count type) =
   snd (parseBits_loop (strtok_all bits) count type
          \<lparr>dest_of = dest, pos_of = count, bitsFound_of = 0, stderr_of = [], stores_of = []\<rparr>)"
  by (simp add: parseBits_def split: prod.splits option.splits)

lemma bit_int_bit:
  "0 \<le> n \<Longrightarrow> n < 32 \<Longrightarrow>
   bit (int_bit n) k \<longleftrightarrow> k = nat n \<or> (n = 31 \<and> 32 \<le> k \<and> k < 64)"
  unfolding int_bit_def
  by (auto simp add: bit_word_scast_iff bit_push_bit_iff bit_1_iff bit_exp_iff)

lemma int_bit_disjoint:
  assumes "0 \<le> i" "i < 32" "0 \<le> j" "j < 32"
  shows "int_bit i AND int_bit j \<noteq> 0 \<longleftrightarrow> i = j"
proof
  assume "i = j"
  have "bit (int_bit i) (nat i)" using assms by (simp add: bit_int_bit)
  then have "int_bit i \<noteq> 0" by auto
  then show "int_bit i AND int_bit j \<noteq> 0" using \<open>i = j\<close> by simp
next
  assume ne: "int_bit i AND int_bit j \<noteq> 0"
  show "i = j"
  proof (rule ccontr)
    assume "i \<noteq> j"
    have "int_bit i AND int_bit j = 0"
    proof (rule bit_eqI)
      fix k
      show "bit (int_bit i AND int_bit j) k = bit (0 :: ulong) k"
        using assms \<open>i \<noteq> j\<close> by (auto simp add: bit_and_iff bit_int_bit)
    qed
    with ne show False by simp
  qed
qed

lemma seen_inv_init: "seen_inv 0 []"
  by (simp add: seen_inv_def)

lemma seen_inv_step:
  assumes "seen_inv bf seen" "0 \<le> i" "i < 32"
  shows "seen_inv (bf OR int_bit i) (i # seen)"
  unfolding seen_inv_def
proof (intro allI impI)
  fix j :: int
  assume j: "0 \<le> j \<and> j < 32"
  have "(bf OR int_bit i) AND int_bit j = (bf AND int_bit j) OR (int_bit i AND int_bit j)"
    by (simp add: bit.conj_disj_distrib2)
  then have "(bf OR int_bit i) AND int_bit j \<noteq> 0 \<longleftrightarrow>
             bf AND int_bit j \<noteq> 0 \<or> int_bit i AND int_bit j \<noteq> 0"
    by (simp add: or_eq_0_iff)
  then show "((bf OR int_bit i) AND int_bit j \<noteq> 0) = (j \<in> set (i # seen))"
    using assms j int_bit_disjoint [of i j] by (auto simp: seen_inv_def)
qed

lemma stderr_store_index [simp]: "stderr_of (store_index i s) = stderr_of s"
  by (simp add: store_index_def)

lemma bitsFound_store_index [simp]: "bitsFound_of (store_index i s) = bitsFound_of s"
  by (simp add: store_index_def)

lemma dest_store_index:
  "dest_of (store_index i s) = (if pos_of s > 0 then (dest_of s)[nat (pos_of s - 1) := i] else dest_of s)"
  by (simp add: store_index_def)

lemma length_dest_store_index [simp]:
  "length (dest_of (store_index i s)) = length (dest_of s)"
  by (simp add: store_index_def)

lemma dest_note_index [simp]: "dest_of (note_index t i s) = dest_of s"
  by (simp add: note_index_def Let_def)

lemma bitsFound_note_index [simp]:
  "bitsFound_of (note_index t i s) = bitsFound_of s OR int_bit i"
  by (simp add: note_index_def Let_def)

lemma stderr_note_index:
  "stderr_of (note_index t i s) =
     stderr_of s @ (if bitsFound_of s AND int_bit i \<noteq> 0 then [DuplicateBitIndex t i] else [])"
  by (simp add: note_index_def Let_def)

lemma loop_stderr:
  assumes "count \<le> 32" "\<forall>tok \<in> set toks. in_range count tok" "seen_inv (bitsFound_of s) seen"
  shows "stderr_of (snd (parseBits_loop toks count type s)) =
           stderr_of s @ map (DuplicateBitIndex type) (repeats_from seen (map atoi toks))"
  using assms
proof (induction toks arbitrary: s seen)
  case Nil
  then show ?case by simp
next
  case (Cons tok rest)
  let ?i = "atoi tok"
  let ?s' = "note_index type ?i (store_index ?i s)"
  from Cons.prems have r: "0 \<le> ?i" "?i < count" "?i < 32" by (auto simp: in_range_def)
  have inv: "seen_inv (bitsFound_of ?s') (?i # seen)"
    using seen_inv_step [OF Cons.prems(3) r(1) r(3)] by simp
  have dup: "bitsFound_of s AND int_bit ?i \<noteq> 0 \<longleftrightarrow> ?i \<in> set seen"
    using Cons.prems(3) r by (simp add: seen_inv_def)
  have "parseBits_loop (tok # rest) count type s = parseBits_loop rest count type ?s'"
    using r by (simp add: Let_def)
  then show ?case
    using Cons.IH [of ?s' "?i # seen"] Cons.prems inv dup
    by (simp add: stderr_note_index)
qed

lemma loop_dest:
  assumes "\<forall>tok \<in> set toks. in_range count tok" "pos_of s = int (length toks)"
    "length toks \<le> length (dest_of s)"
  shows "dest_of (snd (parseBits_loop toks count type s)) =
           rev (map atoi toks) @ drop (length toks) (dest_of s)"
  using assms
proof (induction toks arbitrary: s)
  case Nil
  then show ?case by simp
next
  case (Cons tok rest)
  let ?i = "atoi tok"
  let ?s' = "note_index type ?i (store_index ?i s)"
  from Cons.prems have r: "0 \<le> ?i" "?i < count" by (auto simp: in_range_def)
  have step: "parseBits_loop (tok # rest) count type s = parseBits_loop rest count type ?s'"
    using r by (simp add: Let_def)
  have d: "dest_of ?s' = (dest_of s)[length rest := ?i]"
    using Cons.prems by (simp add: dest_store_index)
  have len: "length rest < length (dest_of s)" using Cons.prems by simp
  have "dest_of (snd (parseBits_loop rest count type ?s')) =
          rev (map atoi rest) @ drop (length rest) (dest_of ?s')"
    using Cons.prems by (intro Cons.IH) (auto simp: d)
  also have "drop (length rest) (dest_of ?s') = ?i # drop (Suc (length rest)) (dest_of s)"
    unfolding d using len by (simp add: upd_conv_take_nth_drop)
  finally show ?case using step by simp
qed

lemma find_in_range:
  "(\<forall>tok \<in> set toks. in_range count tok) \<Longrightarrow> find (out_of_range count) toks = None"
  by (induction toks) (auto simp: in_range_def out_of_range_def)

lemma repeats_from_seen:
  "x \<in> set xs \<Longrightarrow> x \<in> set seen \<Longrightarrow> repeats_from seen xs \<noteq> []"
  by (induction xs arbitrary: seen) auto

lemma repeats_from_nonempty:
  "\<not> distinct xs \<Longrightarrow> repeats_from seen xs \<noteq> []"
proof (induction xs arbitrary: seen)
  case Nil
  then show ?case by simp
next
  case (Cons a xs)
  show ?case
  proof (cases "a \<in> set xs")
    case True
    then have "repeats_from (a # seen) xs \<noteq> []"
      by (intro repeats_from_seen [of a]) auto
    then show ?thesis by simp
  next
    case False
    with Cons.prems have "\<not> distinct xs" by simp
    then show ?thesis using Cons.IH [of "a # seen"] by simp
  qed
qed

section \<open>Properties of swizzleWord\<close>

lemma swizzleWord_step_or:
  "swizzleWord_step w bits i out = out OR swizzleWord_step w bits i 0"
  by (simp add: swizzleWord_step_def)

lemma bit_swizzleWord_loop:
  "bit (swizzleWord_loop w bits c i out) n \<longleftrightarrow>
     bit out n \<or> (\<exists>j. i \<le> j \<and> j < c \<and> bit (swizzleWord_step w bits j 0) n)"
proof (induction w bits c i out rule: swizzleWord_loop.induct)
  case (1 word bits count i out)
  show ?case
  proof (cases "i < count")
    case True
    have "bit (swizzleWord_loop word bits count i out) n \<longleftrightarrow>
          bit (swizzleWord_step word bits i out) n
          \<or> (\<exists>j. Suc i \<le> j \<and> j < count \<and> bit (swizzleWord_step word bits j 0) n)"
      using "1.IH" [OF True] True by (subst swizzleWord_loop.simps) simp
    also have "bit (swizzleWord_step word bits i out) n \<longleftrightarrow>
          bit out n \<or> bit (swizzleWord_step word bits i 0) n"
      by (subst swizzleWord_step_or) (simp add: bit_or_iff)
    finally show ?thesis
      using True by (auto simp: Suc_le_eq less_le)
  next
    case False
    then show ?thesis by (subst swizzleWord_loop.simps) auto
  qed
qed

lemma bit_swizzleWord_step:
  assumes "0 \<le> bits ! j" "bits ! j < 32" "j < 64"
    and "bits ! j = 31 \<longrightarrow> (\<forall>k. 32 \<le> k \<longrightarrow> \<not> bit w k)"
  shows "bit (swizzleWord_step w bits j 0) n \<longleftrightarrow> n = j \<and> bit w (nat (bits ! j))"
proof -
  define x where "x = w AND int_bit (bits ! j)"
  have sel: "bit x k \<longleftrightarrow> k = nat (bits ! j) \<and> bit w k" for k
    unfolding x_def using assms by (auto simp add: bit_and_iff bit_int_bit)
  have step: "swizzleWord_step w bits j 0 =
      (if bits ! j \<ge> int j then drop_bit (nat (bits ! j - int j)) x
       else push_bit (nat (int j - bits ! j)) x)"
    by (simp add: swizzleWord_step_def x_def)
  show ?thesis
  proof (cases "bits ! j \<ge> int j")
    case True
    then have "n + nat (bits ! j - int j) = nat (bits ! j) \<longleftrightarrow> n = j"
      using assms(1) by linarith
    then show ?thesis
      unfolding step using True by (auto simp add: bit_drop_bit_eq sel add.commute)
  next
    case False
    then have "nat (int j - bits ! j) \<le> n \<and> n - nat (int j - bits ! j) = nat (bits ! j) \<longleftrightarrow> n = j"
      using assms(1) by linarith
    then show ?thesis
      unfolding step using False assms(3) by (auto simp add: bit_push_bit_iff sel)
  qed
qed

lemma bit_swizzleWord:
  assumes "c \<le> 64" "\<forall>j<c. 0 \<le> bits ! j \<and> bits ! j < 32"
    and "\<forall>j<c. bits ! j = 31 \<longrightarrow> (\<forall>k. 32 \<le> k \<longrightarrow> \<not> bit w k)"
  shows "bit (swizzleWord w bits (int c)) n \<longleftrightarrow> n < c \<and> bit w (nat (bits ! n))"
proof -
  have "bit (swizzleWord_step w bits j 0) n \<longleftrightarrow> n = j \<and> bit w (nat (bits ! j))" if "j < c" for j
    using that assms by (intro bit_swizzleWord_step) auto
  then show ?thesis
    by (auto simp add: swizzleWord_def bit_swizzleWord_loop)
qed

section \<open>Claims about parseBits\<close>

text \<open>
  Claim C5, as the code has it. With an expected count of 8 the spec
  \<^verbatim>\<open>8,0,1,2,3,4,5,6,7\<close> is rejected at its first token: index 8 is out of range, and the
  error reports the index and the upper bound 7; the loop never gets to count the
  tokens. A spec whose tokens are all in range fails with the count mismatch, which
  reports the expected count and the number of tokens found, exactly when that number is
  not the expected count.
\<close>

theorem parseBits_range_before_count:
  "fst (parseBits ''8,0,1,2,3,4,5,6,7'' dest 8 type) = Some (InvalidBitIndex type 8 7)
   \<and> ((\<forall>tok \<in> set (strtok_all bits). in_range count tok) \<longrightarrow>
        fst (parseBits bits dest count type) =
          (if int (length (strtok_all bits)) \<noteq> count
           then Some (BitCountMismatch count type (int (length (strtok_all bits))))
           else None))"
proof -
  have toks: "strtok_all ''8,0,1,2,3,4,5,6,7'' =
      [''8'', ''0'', ''1'', ''2'', ''3'', ''4'', ''5'', ''6'', ''7'']"
    by code_simp
  have "atoi ''8'' = 8" by code_simp
  then have "find (out_of_range 8) (strtok_all ''8,0,1,2,3,4,5,6,7'') = Some ''8''"
    unfolding toks by (simp add: out_of_range_def)
  then have "fst (parseBits ''8,0,1,2,3,4,5,6,7'' dest 8 type) = Some (InvalidBitIndex type 8 7)"
    using \<open>atoi ''8'' = 8\<close> by (simp add: parseBits_outcome)
  moreover have "fst (parseBits bits dest count type) =
          (if int (length (strtok_all bits)) \<noteq> count
           then Some (BitCountMismatch count type (int (length (strtok_all bits))))
           else None)" if "\<forall>tok \<in> set (strtok_all bits). in_range count tok"
    using find_in_range [OF that] by (simp add: parseBits_outcome)
  ultimately show ?thesis by blast
qed

theorem parseBits_range_before_count_witness:
  "list_all (in_range 8) (strtok_all ''7,0,1,2,3,4,5,6,7'')
   \<and> fst (parseBits ''7,0,1,2,3,4,5,6,7'' (replicate 32 0) 8 ''address'') =
       Some (BitCountMismatch 8 ''address'' 9)"
proof -
  have toks: "strtok_all ''7,0,1,2,3,4,5,6,7'' =
      [''7'', ''0'', ''1'', ''2'', ''3'', ''4'', ''5'', ''6'', ''7'']"
    by code_simp
  have h: "\<forall>tok \<in> set (strtok_all ''7,0,1,2,3,4,5,6,7''). in_range 8 tok"
    unfolding toks by code_simp
  show ?thesis
    using h parseBits_range_before_count [where dest = "replicate 32 0" and type = "''address''"
        and bits = "''7,0,1,2,3,4,5,6,7''" and count = 8]
    by (simp add: toks list_all_iff)
qed

text \<open>The claim as it was stated fails: the error is not a count mismatch.\<close>

theorem parseBits_nine_tokens_counterexample:
  "\<not> is_count_mismatch (fst (parseBits ''8,0,1,2,3,4,5,6,7'' (replicate 32 0) 8 ''address''))"
  by code_simp

text \<open>
  Claim C6. \<^verbatim>\<open>parseBits\<close> stops with the invalid-index error exactly when some token parses
  to an index below 0 or not below \<open>count\<close>; the error carries the axis label, the index
  of the first such token and the bound \<open>count - 1\<close>. When every index lies in
  \<open>[0, count - 1]\<close> the outcome is not that error.
\<close>

theorem parseBits_invalid_index:
  "case find (out_of_range count) (strtok_all bits) of
     Some tok \<Rightarrow>
       fst (parseBits bits dest count type) = Some (InvalidBitIndex type (atoi tok) (count - 1))
   | None \<Rightarrow> \<not> is_invalid_index (fst (parseBits bits dest count type))"
  by (simp add: parseBits_outcome split: option.split)

theorem parseBits_invalid_index_witness:
  "find (out_of_range 4) (strtok_all ''3,9,1,-2'') = Some ''9''
   \<and> fst (parseBits ''3,9,1,-2'' (replicate 32 0) 4 ''data'') = Some (InvalidBitIndex ''data'' 9 3)"
proof -
  have f: "find (out_of_range 4) (strtok_all ''3,9,1,-2'') = Some ''9''"
    by code_simp
  have a: "atoi ''9'' = 9" by code_simp
  show ?thesis
    using parseBits_invalid_index [where count = 4 and bits = "''3,9,1,-2''"
        and dest = "replicate 32 0" and type = "''data''"]
    by (simp add: f a)
qed

text \<open>
  Claim C7. A spec of exactly \<open>count\<close> tokens (at most 32), all in range, is accepted
  whether or not indices repeat: \<^verbatim>\<open>parseBits\<close> returns normally, slot \<open>count - 1 - k\<close> of
  the table holds the index of token \<open>k\<close>, the rest of the array is untouched, and the
  diagnostic stream holds one duplicate warning for each token whose index the bit mask
  had already recorded, so at least one whenever an index repeats.
\<close>

theorem parseBits_duplicates_tolerated:
  assumes "count \<le> 32"
    and "int (length (strtok_all bits)) = count"
    and "\<forall>tok \<in> set (strtok_all bits). in_range count tok"
    and "nat count \<le> length dest"
  shows "fst (parseBits bits dest count type) = None
       \<and> take (nat count) (dest_of (snd (parseBits bits dest count type))) =
           rev (map atoi (strtok_all bits))
       \<and> drop (nat count) (dest_of (snd (parseBits bits dest count type))) = drop (nat count) dest
       \<and> stderr_of (snd (parseBits bits dest count type)) =
           map (DuplicateBitIndex type) (repeats_from [] (map atoi (strtok_all bits)))
       \<and> (\<not> distinct (map atoi (strtok_all bits)) \<longrightarrow>
            stderr_of (snd (parseBits bits dest count type)) \<noteq> [])"
proof -
  let ?toks = "strtok_all bits"
  let ?s0 = "\<lparr>dest_of = dest, pos_of = count, bitsFound_of = 0, stderr_of = [], stores_of = []\<rparr>"
  have n: "nat count = length ?toks" using assms(2) by simp
  have 1: "fst (parseBits bits dest count type) = None"
    using assms(2) find_in_range [OF assms(3)] by (simp add: parseBits_outcome)
  have d: "dest_of (snd (parseBits bits dest count type)) =
             rev (map atoi ?toks) @ drop (length ?toks) dest"
    unfolding snd_parseBits
    using loop_dest [of ?toks count ?s0 type] assms n by simp
  have 2: "stderr_of (snd (parseBits bits dest count type)) =
             map (DuplicateBitIndex type) (repeats_from [] (map atoi ?toks))"
    unfolding snd_parseBits
    using loop_stderr [OF assms(1) assms(3), of ?s0 "[]" type] seen_inv_init by simp
  have 3: "\<not> distinct (map atoi ?toks) \<longrightarrow> repeats_from [] (map atoi ?toks) \<noteq> []"
    using repeats_from_nonempty [of "map atoi ?toks" "[]"] by simp
  show ?thesis using 1 d 2 3 by (simp add: n)
qed

theorem parseBits_duplicates_tolerated_witness:
  "fst (parseBits ''1,3,1,0'' (replicate 32 0) 4 ''data'') = None
   \<and> take 4 (dest_of (snd (parseBits ''1,3,1,0'' (replicate 32 0) 4 ''data''))) = [0, 1, 3, 1]
   \<and> stderr_of (snd (parseBits ''1,3,1,0'' (replicate 32 0) 4 ''data'')) =
       [DuplicateBitIndex ''data'' 1]"
proof -
  have toks: "strtok_all ''1,3,1,0'' = [''1'', ''3'', ''1'', ''0'']"
    by code_simp
  have a: "map atoi [''1'', ''3'', ''1'', ''0''] = [1, 3, 1, 0]"
    by code_simp
  have h2: "int (length (strtok_all ''1,3,1,0'')) = 4"
    unfolding toks by simp
  have h3: "\<forall>tok \<in> set (strtok_all ''1,3,1,0''). in_range 4 tok"
    unfolding toks by code_simp
  show ?thesis
    using parseBits_duplicates_tolerated [where count = 4 and bits = "''1,3,1,0''"
        and dest = "replicate 32 0" and type = "''data''", OF _ h2 h3]
    unfolding toks a by simp
qed

text \<open>
  Claim C10. The slots \<^verbatim>\<open>parseBits\<close> stores to are \<open>count - 1\<close>, \<open>count - 2\<close>, ..., one
  for each token the loop reads, and none once the position counter has reached 0: every
  stored slot lies in \<open>[0, count - 1]\<close> and not below \<open>count\<close> minus the number of
  tokens. When no token is out of range the loop reads all tokens, and the slots are
  exactly \<open>count - 1\<close> down to \<open>max 0 (count - number of tokens)\<close>.
\<close>

theorem parseBits_stores_in_table:
  "stores_of (snd (parseBits bits dest count type)) =
     store_trace count (length (tokens_read count (strtok_all bits)))
   \<and> (\<forall>p \<in> set (stores_of (snd (parseBits bits dest count type))).
         0 \<le> p \<and> count - int (length (strtok_all bits)) \<le> p \<and> p \<le> count - 1)
   \<and> (find (out_of_range count) (strtok_all bits) = None \<longrightarrow>
        stores_of (snd (parseBits bits dest count type)) =
          store_trace count (length (strtok_all bits)))"
proof -
  have eq: "stores_of (snd (parseBits bits dest count type)) =
     store_trace count (length (tokens_read count (strtok_all bits)))"
    by (simp add: snd_parseBits loop_stores)
  have "int (length (tokens_read count (strtok_all bits))) \<le> int (length (strtok_all bits))"
    using length_tokens_read [of count "strtok_all bits"] by simp
  then have "\<forall>p \<in> set (stores_of (snd (parseBits bits dest count type))).
         0 \<le> p \<and> count - int (length (strtok_all bits)) \<le> p \<and> p \<le> count - 1"
    unfolding eq using store_trace_bounds [of _ count "length (tokens_read count (strtok_all bits))"]
    by fastforce
  then show ?thesis using eq by (simp add: tokens_read_all)
qed

theorem parseBits_stores_in_table_witness:
  "stores_of (snd (parseBits ''0,1,0,1,0'' (replicate 32 0) 3 ''address'')) = [2, 1, 0]
   \<and> list_all (\<lambda>p. 0 \<le> p \<and> 3 - 5 \<le> p \<and> p \<le> 3 - 1) [2, 1, 0 :: int]
   \<and> find (out_of_range 3) (strtok_all ''0,1,0,1,0'') = None"
proof -
  have toks: "strtok_all ''0,1,0,1,0'' = [''0'', ''1'', ''0'', ''1'', ''0'']"
    by code_simp
  have r: "length (tokens_read 3 [''0'', ''1'', ''0'', ''1'', ''0'']) = 5"
    by code_simp
  have t: "store_trace 3 5 = [2, 1, 0]"
    by code_simp
  have f: "find (out_of_range 3) [''0'', ''1'', ''0'', ''1'', ''0''] = None"
    by code_simp
  show ?thesis
    using parseBits_stores_in_table [where bits = "''0,1,0,1,0''" and dest = "replicate 32 0"
        and count = 3 and type = "''address''"]
    unfolding toks r t f by simp
qed

section \<open>Claims about swizzleWord\<close>

text \<open>
  Claim C4. Let \<open>T\<close> be a table of at most 32 entries that is a permutation of
  \<open>0, ..., length T - 1\<close>, and \<open>T'\<close> its inverse table (\<open>T' ! (T ! i) = i\<close>). For every
  value \<open>v\<close> whose set bits all lie below \<open>length T\<close>, applying \<^verbatim>\<open>swizzleWord\<close> with
  \<open>T\<close> and then with \<open>T'\<close> gives \<open>v\<close> back.
\<close>

theorem swizzleWord_inverse:
  assumes len: "length T \<le> 32" "length T' = length T"
    and rng: "\<forall>x \<in> set T. 0 \<le> x \<and> x < int (length T)"
    and inj: "distinct T"
    and inv: "\<forall>i<length T. T' ! nat (T ! i) = int i"
    and v: "take_bit (length T) v = v"
  shows "swizzleWord (swizzleWord v T (int (length T))) T' (int (length T)) = v"
proof (rule bit_eqI)
  fix n
  let ?c = "length T"
  let ?r = "swizzleWord v T (int ?c)"
  have vb: "\<not> bit v k" if "?c \<le> k" for k
  proof -
    have "bit v k = bit (take_bit ?c v) k" using v by simp
    then show ?thesis using that by (simp add: bit_take_bit_iff)
  qed
  have rng': "\<forall>j<?c. 0 \<le> T ! j \<and> T ! j < 32"
    using rng len by (auto dest!: nth_mem)
  have r: "bit ?r m \<longleftrightarrow> m < ?c \<and> bit v (nat (T ! m))" for m
    using len rng' vb by (intro bit_swizzleWord) auto
  have surj: "\<exists>i<?c. T ! i = int m" if m: "m < ?c" for m
  proof -
    have "card (set T) = ?c" using inj by (simp add: distinct_card)
    moreover have sub: "set T \<subseteq> int ` {..<?c}"
    proof
      fix x assume "x \<in> set T"
      then have "0 \<le> x" "x < int ?c" using rng by auto
      then have "x = int (nat x)" "nat x < ?c" by auto
      then show "x \<in> int ` {..<?c}" by blast
    qed
    moreover have "card (int ` {..<?c}) = ?c" by (simp add: card_image)
    ultimately have "set T = int ` {..<?c}" by (intro card_subset_eq) auto
    then have "int m \<in> set T" using m by auto
    then show ?thesis by (auto simp: in_set_conv_nth)
  qed
  have T': "0 \<le> T' ! m \<and> T' ! m < int ?c \<and> T ! nat (T' ! m) = int m" if m: "m < ?c" for m
  proof -
    obtain i where i: "i < ?c" "T ! i = int m" using surj [OF m] by blast
    then have "T' ! m = int i" using inv by force
    then show ?thesis using i by simp
  qed
  have T'32: "\<forall>j<?c. 0 \<le> T' ! j \<and> T' ! j < 32"
    using T' len by fastforce
  have rb: "\<forall>j<?c. T' ! j = 31 \<longrightarrow> (\<forall>k. 32 \<le> k \<longrightarrow> \<not> bit ?r k)"
    using r len by auto
  have "bit (swizzleWord ?r T' (int ?c)) n \<longleftrightarrow> n < ?c \<and> bit ?r (nat (T' ! n))"
    using len T'32 rb by (intro bit_swizzleWord) auto
  also have "\<dots> \<longleftrightarrow> n < ?c \<and> bit v n"
  proof (cases "n < ?c")
    case True
    have "nat (T' ! n) < ?c" "T ! nat (T' ! n) = int n"
      using T' [OF True] by auto
    then show ?thesis by (simp add: r)
  next
    case False
    then show ?thesis by simp
  qed
  also have "\<dots> \<longleftrightarrow> bit v n" using vb [of n] by (cases "n < ?c") auto
  finally show "bit (swizzleWord ?r T' (int ?c)) n = bit v n" .
qed

theorem swizzleWord_inverse_witness:
  "swizzleWord (swizzleWord 5 [2, 0, 1] 3) [1, 2, 0] 3 = 5"
proof -
  have h1: "\<forall>i<length [2, 0, 1::int]. [1, 2, 0::int] ! nat ([2, 0, 1::int] ! i) = int i"
    by (simp add: less_Suc_eq)
  have h2: "take_bit (length [2, 0, 1::int]) (5::ulong) = 5"
    by (simp add: take_bit_eq_mod)
  show ?thesis
    using swizzleWord_inverse [of "[2, 0, 1]" "[1, 2, 0]" 5, OF _ _ _ _ h1 h2] by simp
qed

text \<open>
  Claim C2 says that for a table of at most 32 entries and every input word, bit \<open>i\<close> of
  the result of \<^verbatim>\<open>swizzleWord\<close> is bit \<open>table[i]\<close> of the input. The code differs where
  the table holds 31 and the input has a bit above bit 31: \<^verbatim>\<open>1 << 31\<close> is a negative
  \<^verbatim>\<open>int\<close>, its conversion to \<^verbatim>\<open>unsigned long\<close> sets bits 31 to 63 of the mask, and the
  shifted contribution spills over the neighbouring result bits. For the bit reversal of
  32 bits and the input \<open>0xFFFFFFFF80000000\<close>, bit 1 of the result is set although
  bit 30 of the input is clear. (\<open>bit_swizzleWord\<close> above is the claim for inputs below
  \<open>2 ^ 32\<close> and for tables without the entry 31.)
\<close>

theorem swizzleWord_sign_extended_mask:
  "swizzleWord 0xFFFFFFFF80000000 reversal32 32 = 0x1FFFFFFFF
   \<and> bit (swizzleWord 0xFFFFFFFF80000000 reversal32 32) 1
   \<and> reversal32 ! 1 = 30
   \<and> \<not> bit (0xFFFFFFFF80000000 :: ulong) 30"
  by code_simp

section \<open>Properties of the geometry\<close>

lemma is_pow2_pos: "is_pow2 n \<Longrightarrow> 0 < n"
  by (subst (asm) is_pow2.simps) (auto split: if_splits)

lemma is_pow2_power: "is_pow2 (2 ^ k)"
proof (induction k)
  case 0
  then show ?case by (subst is_pow2.simps) simp
next
  case (Suc k)
  have "(1::int) \<le> 2 ^ k" by simp
  then have "(1::int) < 2 * 2 ^ k" by linarith
  with Suc show ?case by (subst is_pow2.simps) simp
qed

lemma is_pow2_imp_power: "is_pow2 n \<Longrightarrow> \<exists>k. n = 2 ^ k"
proof (induction n rule: is_pow2.induct)
  case (1 n)
  from "1.prems" have c: "n = 1 \<or> (1 < n \<and> even n \<and> is_pow2 (n div 2))"
    by (subst (asm) is_pow2.simps) (auto split: if_splits)
  show ?case
  proof (cases "n = 1")
    case True
    then have "n = 2 ^ 0" by simp
    then show ?thesis by blast
  next
    case False
    with c have h: "1 < n" "even n" "is_pow2 (n div 2)" by auto
    then obtain k where "n div 2 = 2 ^ k" using "1.IH" by fastforce
    then have "n = 2 ^ Suc k" using h(2) by auto
    then show ?thesis by blast
  qed
qed

lemma is_pow2_iff: "is_pow2 n \<longleftrightarrow> (\<exists>k. n = 2 ^ k)"
  using is_pow2_imp_power is_pow2_power by blast

lemma and_pred_eq_0_iff: "0 < n \<Longrightarrow> n AND (n - 1) = 0 \<longleftrightarrow> is_pow2 n"
proof (induction n rule: is_pow2.induct)
  case (1 n)
  show ?case
  proof (cases "even n")
    case True
    then obtain q where q: "n = 2 * q" by (auto elim: evenE)
    with "1.prems" have qpos: "0 < q" by simp
    have "n \<noteq> 1" "1 < n" using q qpos by auto
    have "(n - 1) div 2 = q - 1" using q by simp
    then have "n AND (n - 1) = 2 * (q AND (q - 1))"
      using q by (subst and_int_rec) simp
    moreover have "q AND (q - 1) = 0 \<longleftrightarrow> is_pow2 q"
      using "1.IH" \<open>1 < n\<close> q qpos by simp
    moreover have "is_pow2 n \<longleftrightarrow> is_pow2 q"
      using q qpos by (subst is_pow2.simps) auto
    ultimately show ?thesis by simp
  next
    case False
    then obtain q where q: "n = 2 * q + 1" by (auto elim: oddE)
    with "1.prems" have qnn: "0 \<le> q" by simp
    have "n AND (n - 1) = 2 * q"
      using q by (subst and_int_rec) simp
    moreover have "is_pow2 n \<longleftrightarrow> q = 0"
      using q False by (subst is_pow2.simps) auto
    ultimately show ?thesis by simp
  qed
qed

lemma ilog2_nonneg: "0 \<le> ilog2 n"
  by (induction n rule: ilog2.induct) (subst ilog2.simps, simp)

lemma ilog2_bounds:
  "1 \<le> n \<Longrightarrow> 2 ^ nat (ilog2 n) \<le> n \<and> n < 2 ^ nat (ilog2 n + 1)"
proof (induction n rule: ilog2.induct)
  case (1 q)
  show ?case
  proof (cases "q < 2")
    case True
    with "1.prems" have "q = 1" by simp
    then show ?thesis by (subst ilog2.simps, subst ilog2.simps) simp
  next
    case False
    then have "1 \<le> q div 2" by simp
    from "1.IH" [OF False this]
    have ih: "2 ^ nat (ilog2 (q div 2)) \<le> q div 2" "q div 2 < 2 ^ nat (ilog2 (q div 2) + 1)"
      by auto
    have e: "ilog2 q = 1 + ilog2 (q div 2)"
      using False by (subst ilog2.simps) simp
    have n1: "nat (ilog2 q) = Suc (nat (ilog2 (q div 2)))"
      unfolding e using ilog2_nonneg [of "q div 2"] by simp
    have n2: "nat (ilog2 q + 1) = Suc (nat (ilog2 (q div 2) + 1))"
      unfolding e using ilog2_nonneg [of "q div 2"] by simp
    show ?thesis unfolding n1 n2 using ih by simp linarith
  qed
qed

lemma smear_step:
  fixes a n :: int
  assumes "\<And>i. bit a i \<longleftrightarrow> (\<exists>d<m. bit n (i + d))"
  shows "bit (a OR drop_bit m a) i \<longleftrightarrow> (\<exists>d<2 * m. bit n (i + d))"
proof -
  have "bit (a OR drop_bit m a) i \<longleftrightarrow> bit a i \<or> bit a (m + i)"
    by (simp add: bit_or_iff bit_drop_bit_eq)
  also have "\<dots> \<longleftrightarrow> (\<exists>d<m. bit n (i + d)) \<or> (\<exists>d<m. bit n (i + (m + d)))"
    by (simp add: assms ac_simps)
  also have "\<dots> \<longleftrightarrow> (\<exists>d<2 * m. bit n (i + d))"
  proof
    assume "(\<exists>d<m. bit n (i + d)) \<or> (\<exists>d<m. bit n (i + (m + d)))"
    then show "\<exists>d<2 * m. bit n (i + d)"
    proof
      assume "\<exists>d<m. bit n (i + d)"
      then obtain d where "d < m" "bit n (i + d)" by blast
      then have "d < 2 * m \<and> bit n (i + d)" by simp
      then show ?thesis by blast
    next
      assume "\<exists>d<m. bit n (i + (m + d))"
      then obtain d where "d < m" "bit n (i + (m + d))" by blast
      then have "m + d < 2 * m \<and> bit n (i + (m + d))" by simp
      then show ?thesis by blast
    qed
  next
    assume "\<exists>d<2 * m. bit n (i + d)"
    then obtain d where d: "d < 2 * m" "bit n (i + d)" by blast
    show "(\<exists>d<m. bit n (i + d)) \<or> (\<exists>d<m. bit n (i + (m + d)))"
    proof (cases "d < m")
      case True
      with d show ?thesis by blast
    next
      case False
      then have "d - m < m" "i + (m + (d - m)) = i + d" using d by auto
      with d show ?thesis by metis
    qed
  qed
  finally show ?thesis .
qed

lemma bit_smear: "bit (smear n) i \<longleftrightarrow> (\<exists>d<32. bit n (i + d))"
proof -
  define a where "a = n OR drop_bit 1 n"
  define b where "b = a OR drop_bit 2 a"
  define c where "c = b OR drop_bit 4 b"
  define d where "d = c OR drop_bit 8 c"
  have 0: "bit n i \<longleftrightarrow> (\<exists>d<1. bit n (i + d))" for i by simp
  have 1: "bit a i \<longleftrightarrow> (\<exists>d<2. bit n (i + d))" for i
    unfolding a_def using smear_step [of n 1 n i, OF 0] by simp
  have 2: "bit b i \<longleftrightarrow> (\<exists>d<4. bit n (i + d))" for i
    unfolding b_def using smear_step [of a 2 n i, OF 1] by simp
  have 3: "bit c i \<longleftrightarrow> (\<exists>d<8. bit n (i + d))" for i
    unfolding c_def using smear_step [of b 4 n i, OF 2] by simp
  have 4: "bit d i \<longleftrightarrow> (\<exists>e<16. bit n (i + e))" for i
    unfolding d_def using smear_step [of c 8 n i, OF 3] by simp
  have "smear n = d OR drop_bit 16 d"
    by (simp add: smear_def Let_def a_def b_def c_def d_def)
  then show ?thesis
    using smear_step [of d 16 n i, OF 4] by simp
qed

lemma bit_above: "0 \<le> n \<Longrightarrow> n < 2 ^ j \<Longrightarrow> \<not> bit (n::int) j"
  by (simp add: bit_iff_odd)

lemma bit_top: "2 ^ k \<le> n \<Longrightarrow> n < 2 ^ Suc k \<Longrightarrow> bit (n::int) k"
proof -
  assume a: "2 ^ k \<le> n" "n < 2 ^ Suc k"
  define m where "m = n - 2 ^ k"
  have m: "0 \<le> m" "m < 2 ^ k" "n = m + 2 ^ k" using a by (auto simp: m_def)
  have "(m + 2 ^ k) div 2 ^ k = m div 2 ^ k + 1"
    by (rule div_add_self2) simp
  moreover have "m div 2 ^ k = 0" using m by simp
  ultimately have "n div 2 ^ k = 1" using m by simp
  then show ?thesis by (simp add: bit_iff_odd)
qed

lemma low_bit_exists:
  assumes "0 \<le> (n::int)" "n mod 2 ^ m \<noteq> 0"
  shows "\<exists>d<m. bit n d"
proof (rule ccontr)
  assume "\<not> (\<exists>d<m. bit n d)"
  then have "take_bit m n = 0"
    by (intro bit_eqI) (auto simp: bit_take_bit_iff)
  then show False using assms by (simp add: take_bit_eq_mod)
qed

lemma smear_eq_mask:
  assumes "0 < n" "n < 2 ^ 33" "\<not> is_pow2 n"
  shows "smear n = mask (Suc (nat (ilog2 n)))"
proof (rule bit_eqI)
  fix i
  define k where "k = nat (ilog2 n)"
  have kb: "2 ^ k \<le> n" "n < 2 ^ Suc k"
    using ilog2_bounds [of n] assms(1) ilog2_nonneg [of n]
    by (auto simp: k_def nat_add_distrib)
  have k32: "k \<le> 32"
  proof (rule ccontr)
    assume "\<not> k \<le> 32"
    then have "33 \<le> k" by simp
    then have "(2::int) ^ 33 \<le> 2 ^ k" by (intro power_increasing) auto
    with kb assms show False by linarith
  qed
  have top: "bit n k" using kb by (rule bit_top)
  have above: "\<not> bit n j" if "k < j" for j
  proof -
    have "(2::int) ^ Suc k \<le> 2 ^ j" using that by (intro power_increasing) auto
    with kb have "n < 2 ^ j" by linarith
    then show ?thesis using assms(1) by (intro bit_above) auto
  qed
  have "(\<exists>d<32. bit n (i + d)) \<longleftrightarrow> i \<le> k"
  proof
    assume "\<exists>d<32. bit n (i + d)"
    then obtain d where "bit n (i + d)" by blast
    then have "\<not> k < i + d" using above by blast
    then show "i \<le> k" by simp
  next
    assume ik: "i \<le> k"
    show "\<exists>d<32. bit n (i + d)"
    proof (cases "k - i < 32")
      case True
      then have "k - i < 32 \<and> bit n (i + (k - i))" using top ik by simp
      then show ?thesis by blast
    next
      case False
      then have k: "k = 32" and i: "i = 0" using k32 ik by auto
      have "n mod 2 ^ 32 \<noteq> 0"
      proof
        assume z: "n mod 2 ^ 32 = 0"
        have "n div 2 ^ 32 = 1"
        proof -
          have "n = (n - 2 ^ 32) + 2 ^ 32" by simp
          moreover have "0 \<le> n - 2 ^ 32" "n - 2 ^ 32 < 2 ^ 32" using kb k by auto
          ultimately show ?thesis
            by (metis div_add_self2 div_pos_pos_trivial add_0 power_not_zero zero_neq_numeral)
        qed
        then have "n = 2 ^ 32" using z by (metis mult.right_neutral mult_div_mod_eq add.right_neutral)
        then show False using assms(3) is_pow2_power [of 32] by simp
      qed
      then obtain d where "d < 32" "bit n d"
        using low_bit_exists [of n 32] assms(1) by auto
      then show ?thesis using i by auto
    qed
  qed
  then show "bit (smear n) i = bit (mask (Suc (nat (ilog2 n))) :: int) i"
    by (simp add: bit_smear bit_mask_iff k_def less_Suc_eq_le)
qed

lemma smear_plus_1:
  assumes "0 < n" "n < 2 ^ 33" "\<not> is_pow2 n"
  shows "smear n + 1 = 2 ^ nat (ilog2 n + 1)"
proof -
  have "nat (ilog2 n + 1) = Suc (nat (ilog2 n))"
    using ilog2_nonneg [of n] by simp
  then show ?thesis
    using smear_eq_mask [OF assms] by (simp add: mask_eq_exp_minus_1)
qed

lemma pad_pow2_round:
  assumes "addrBits opts \<noteq> None" "0 < n" "n < 2 ^ 33" "\<not> is_pow2 n"
  shows "pad_pow2 opts n = (2 ^ nat (ilog2 n + 1), [NonPowerOfTwoSize n])"
    and "n < 2 ^ nat (ilog2 n + 1)" and "2 ^ nat (ilog2 n + 1) < 2 * n"
proof -
  have "n AND (n - 1) \<noteq> 0" using assms by (simp add: and_pred_eq_0_iff)
  then show "pad_pow2 opts n = (2 ^ nat (ilog2 n + 1), [NonPowerOfTwoSize n])"
    using assms by (simp add: pad_pow2_def smear_plus_1)
  have b: "2 ^ nat (ilog2 n) \<le> n" "n < 2 ^ nat (ilog2 n + 1)"
    using ilog2_bounds [of n] assms(2) by auto
  show "n < 2 ^ nat (ilog2 n + 1)" by (rule b)
  have "n \<noteq> 2 ^ nat (ilog2 n)" using assms(4) is_pow2_power by metis
  with b have "2 ^ nat (ilog2 n) < n" by simp
  moreover have "nat (ilog2 n + 1) = Suc (nat (ilog2 n))"
    using ilog2_nonneg [of n] by simp
  ultimately show "2 ^ nat (ilog2 n + 1) < 2 * n" by simp
qed

lemma pad_pow2_keep:
  assumes "addrBits opts = None \<or> is_pow2 n \<or> n = 0"
  shows "pad_pow2 opts n = (n, [])"
proof -
  have "n AND (n - 1) = 0" if "is_pow2 n"
    using that is_pow2_pos [OF that] by (simp add: and_pred_eq_0_iff)
  then show ?thesis using assms by (auto simp: pad_pow2_def)
qed

text \<open>
  Claim C9, as the code has it. When an address permutation is requested and the file
  size is positive, below \<open>2 ^ 33\<close> and not a power of two, the working size becomes the
  next power of two (the only power of two \<open>p\<close> with \<open>n < p < 2 * n\<close>) and the
  non-power-of-two warning is emitted. When no address permutation is requested, or the
  size is a power of two, or the size is 0, the size is kept and nothing is emitted. The
  input buffer holds the file followed by zero bytes up to the working size.
\<close>

theorem pad_pow2_next_power:
  "(addrBits opts \<noteq> None \<and> 0 < n \<and> n < 2 ^ 33 \<and> \<not> is_pow2 n \<longrightarrow>
      pad_pow2 opts n = (2 ^ nat (ilog2 n + 1), [NonPowerOfTwoSize n])
      \<and> n < 2 ^ nat (ilog2 n + 1) \<and> 2 ^ nat (ilog2 n + 1) < 2 * n)
   \<and> (addrBits opts = None \<or> is_pow2 n \<or> n = 0 \<longrightarrow> pad_pow2 opts n = (n, []))
   \<and> (int (length file) \<le> inSize \<longrightarrow>
        length (read_input file inSize) = nat inSize
        \<and> take (length file) (read_input file inSize) = file
        \<and> drop (length file) (read_input file inSize) = replicate (nat inSize - length file) 0)"
  using pad_pow2_round [of opts n] pad_pow2_keep [of opts n]
  by (auto simp: read_input_def)

theorem pad_pow2_next_power_witness:
  "\<not> is_pow2 100
   \<and> pad_pow2 \<lparr>addrBits = Some ''6,5,4,3,2,1,0'', dataBits = None, bytesPerWord = 1,
                bigEndian = False\<rparr> 100 = (128, [NonPowerOfTwoSize 100])
   \<and> pad_pow2 \<lparr>addrBits = None, dataBits = None, bytesPerWord = 1, bigEndian = False\<rparr> 100 = (100, [])
   \<and> drop 100 (read_input (replicate 100 1) 128) = replicate 28 0"
proof -
  have p: "\<not> is_pow2 100" by code_simp
  have l: "ilog2 100 = 6" by code_simp
  show ?thesis
    using p pad_pow2_next_power [of "\<lparr>addrBits = Some ''6,5,4,3,2,1,0'', dataBits = None,
        bytesPerWord = 1, bigEndian = False\<rparr>" 100 "replicate 100 1" 128]
      pad_pow2_next_power [of "\<lparr>addrBits = None, dataBits = None,
        bytesPerWord = 1, bigEndian = False\<rparr>" 100 "replicate 100 1" 128]
    by (simp add: l)
qed

text \<open>
  The claim as it was stated fails for the empty file: 0 is not a power of two, and with an
  address permutation requested the size is neither rounded nor warned about.
\<close>

theorem pad_pow2_empty_file_counterexample:
  "\<not> is_pow2 0
   \<and> pad_pow2 \<lparr>addrBits = Some ''0'', dataBits = None, bytesPerWord = 1, bigEndian = False\<rparr> 0
       = (0, [])"
  by code_simp

text \<open>
  Beyond \<open>2 ^ 33\<close> the five shifts no longer reach every bit: a file of \<open>2 ^ 33 + 1\<close>
  bytes with two-byte words gets a working size that is not a power of two and passes the
  check on the address width.
\<close>

lemma pad_pow2_large_file:
  "\<not> is_pow2 (2 ^ 33 + 1)
   \<and> pad_pow2 \<lparr>addrBits = Some ''0'', dataBits = None, bytesPerWord = 2, bigEndian = False\<rparr>
        (2 ^ 33 + 1) = (2 ^ 34 - 2, [NonPowerOfTwoSize (2 ^ 33 + 1)])
   \<and> \<not> is_pow2 (2 ^ 34 - 2)
   \<and> pad_word \<lparr>addrBits = Some ''0'', dataBits = None, bytesPerWord = 2, bigEndian = False\<rparr>
        (2 ^ 34 - 2) = (2 ^ 34 - 2, [])
   \<and> log2_trunc ((2 ^ 34 - 2) div 2) = 32"
  by code_simp

section \<open>Properties of the transformation loop\<close>

lemma fold_update_upt:
  "a + n \<le> length out \<Longrightarrow>
   fold (\<lambda>i out. out[a + i := f i]) [0..<n] out = take a out @ map f [0..<n] @ drop (a + n) out"
proof (induction n)
  case 0
  then show ?case by simp
next
  case (Suc n)
  let ?mid = "take a out @ map f [0..<n] @ drop (a + n) out"
  have len: "a + n < length out" using Suc.prems by simp
  have "fold (\<lambda>i out. out[a + i := f i]) [0..<Suc n] out = ?mid[a + n := f n]"
    using Suc by simp
  also have "?mid = (take a out @ map f [0..<n]) @ drop (a + n) out" by simp
  also have "\<dots>[a + n := f n] = (take a out @ map f [0..<n]) @ (drop (a + n) out)[0 := f n]"
    using len by (subst list_update_append) (simp add: min_def)
  also have "(drop (a + n) out)[0 := f n] = f n # drop (a + Suc n) out"
    using len by (cases "drop (a + n) out") (auto simp: drop_Suc drop_tl)
  finally show ?case by simp
qed

lemma bit_fold_or:
  "bit (fold (\<lambda>j d. d OR g j) [0..<n] (d0 :: ulong)) m \<longleftrightarrow> bit d0 m \<or> (\<exists>j<n. bit (g j) m)"
  by (induction n) (auto simp: bit_or_iff less_Suc_eq)

lemma bit_assemble:
  "bit (assemble opts inData pos) m \<longleftrightarrow>
     (\<exists>j<nat (bytesPerWord opts).
        bit (scast (push_bit (byte_shift opts j) (ucast (inData ! (nat pos + j)) :: c_int)) :: ulong) m)"
  unfolding assemble_def by (simp add: bit_fold_or)

lemma byte_shift_props:
  assumes "bytesPerWord opts \<le> 4" "j < nat (bytesPerWord opts)"
  shows "byte_shift opts j \<le> 24" "8 dvd byte_shift opts j"
  using assms by (auto simp: byte_shift_def)

lemma byte_shift_inj:
  assumes "i < nat (bytesPerWord opts)" "j < nat (bytesPerWord opts)"
    "byte_shift opts i = byte_shift opts j"
  shows "i = j"
  using assms by (auto simp: byte_shift_def split: if_splits)

lemma low_bits_assemble:
  assumes b: "bytesPerWord opts \<le> 4" and i: "i < nat (bytesPerWord opts)" and m: "m < 8"
  shows "bit (assemble opts inData pos) (byte_shift opts i + m) \<longleftrightarrow> bit (inData ! (nat pos + i)) m"
proof -
  have one: "bit (scast (push_bit (byte_shift opts j) (ucast (inData ! (nat pos + j)) :: c_int)) :: ulong)
               (byte_shift opts i + m) \<longleftrightarrow> j = i \<and> bit (inData ! (nat pos + i)) m"
    if j: "j < nat (bytesPerWord opts)" for j
  proof -
    obtain a where a: "byte_shift opts i = 8 * a" "a \<le> 3"
      using byte_shift_props [OF b i] by (auto elim!: dvdE)
    obtain c where c: "byte_shift opts j = 8 * c" "c \<le> 3"
      using byte_shift_props [OF b j] by (auto elim!: dvdE)
    have inj: "a = c \<longleftrightarrow> j = i"
      using byte_shift_inj [OF i j] a c by auto
    have "8 * c \<le> 8 * a + m \<and> 8 * a + m - 8 * c < 8 \<longleftrightarrow> a = c" using m by arith
    then show ?thesis
      using m a c inj
      by (auto simp add: bit_word_scast_iff bit_push_bit_iff bit_ucast_iff
               dest: bit_imp_le_length)
  qed
  show ?thesis
    unfolding bit_assemble using one i by auto
qed

lemma byte_of_assemble:
  assumes "bytesPerWord opts \<le> 4" "i < nat (bytesPerWord opts)"
  shows "(ucast (drop_bit (byte_shift opts i) (assemble opts inData pos)) :: byte) = inData ! (nat pos + i)"
proof (rule bit_eqI)
  fix m
  show "bit (ucast (drop_bit (byte_shift opts i) (assemble opts inData pos)) :: byte) m
        = bit (inData ! (nat pos + i)) m"
  proof (cases "m < 8")
    case True
    then show ?thesis
      using low_bits_assemble [OF assms True, of inData pos]
      by (simp add: bit_ucast_iff bit_drop_bit_eq)
  next
    case False
    then have "\<not> bit (inData ! (nat pos + i)) m"
      using bit_imp_le_length [of "inData ! (nat pos + i)" m] by auto
    with False show ?thesis by (simp add: bit_ucast_iff)
  qed
qed

lemma disassemble_eq:
  assumes "0 \<le> a" "nat a + nat (bytesPerWord opts) \<le> length out"
  shows "disassemble opts data a out =
           take (nat a) out
           @ map (\<lambda>i. ucast (drop_bit (byte_shift opts i) data)) [0..<nat (bytesPerWord opts)]
           @ drop (nat a + nat (bytesPerWord opts)) out"
  unfolding disassemble_def using assms(2) by (rule fold_update_upt)

lemma map_upt_shift: "map G [q..<q + n] = map (\<lambda>i. G (q + i)) [0..<n]"
  by (induction n) auto

lemma swizzle_body_no_addr:
  assumes "addrBits opts = None" "0 < bytesPerWord opts"
    and "q + nat (bytesPerWord opts) \<le> length inData" "length out = length inData"
    and G: "\<And>i. i < nat (bytesPerWord opts) \<Longrightarrow>
              ucast (drop_bit (byte_shift opts i) (word_data opts dT nD inData (int q))) = G (q + i)"
  shows "swizzle_body opts aT dT nA nD inData (int q) out =
           Inr (take q out @ map G [q..<q + nat (bytesPerWord opts)]
                @ drop (q + nat (bytesPerWord opts)) out)"
proof -
  have oa: "out_addr opts aT nA (int q) = int q"
    using assms(1) by (simp add: out_addr_def)
  have inb: "\<not> int (length inData) < int q + bytesPerWord opts"
    using assms(2,3) by linarith
  have outb: "\<not> int (length out) < int q + bytesPerWord opts"
    using assms(2,3,4) by linarith
  have "swizzle_body opts aT dT nA nD inData (int q) out =
          Inr (disassemble opts (word_data opts dT nD inData (int q)) (int q) out)"
    using inb outb by (simp add: swizzle_body_def oa Let_def)
  also have "disassemble opts (word_data opts dT nD inData (int q)) (int q) out =
      take q out
      @ map (\<lambda>i. ucast (drop_bit (byte_shift opts i) (word_data opts dT nD inData (int q))))
          [0..<nat (bytesPerWord opts)]
      @ drop (q + nat (bytesPerWord opts)) out"
    using disassemble_eq [of "int q" opts out] assms(3,4) by simp
  also have "map (\<lambda>i. ucast (drop_bit (byte_shift opts i) (word_data opts dT nD inData (int q))))
          [0..<nat (bytesPerWord opts)] = map G [q..<q + nat (bytesPerWord opts)]"
    unfolding map_upt_shift using G by simp
  finally show ?thesis .
qed

lemma swizzle_loop_no_addr:
  assumes na: "addrBits opts = None" and b: "0 < bytesPerWord opts"
    and G: "\<And>q i. q + nat (bytesPerWord opts) \<le> length inData \<Longrightarrow> i < nat (bytesPerWord opts) \<Longrightarrow>
              ucast (drop_bit (byte_shift opts i) (word_data opts dT nD inData (int q))) = G (q + i)"
  shows "p \<le> length inData \<Longrightarrow> nat (bytesPerWord opts) dvd length inData - p \<Longrightarrow>
         length out = length inData \<Longrightarrow>
         swizzle_loop opts aT dT nA nD (int (length inData)) inData (int p) out =
           Inr (take p out @ map G [p..<length inData])"
proof (induction "length inData - p" arbitrary: p out rule: less_induct)
  case less
  let ?n = "nat (bytesPerWord opts)"
  let ?N = "length inData"
  show ?case
  proof (cases "p < ?N")
    case False
    with less.prems have "p = ?N" by simp
    then show ?thesis
      using less.prems by (subst swizzle_loop.simps) simp
  next
    case True
    have npos: "0 < ?n" using b by simp
    have "?n \<le> ?N - p" using less.prems(2) True by (intro dvd_imp_le) auto
    then have fit: "p + ?n \<le> ?N" using True by linarith
    let ?out' = "take p out @ map G [p..<p + ?n] @ drop (p + ?n) out"
    have body: "swizzle_body opts aT dT nA nD inData (int p) out = Inr ?out'"
      using na b fit less.prems(3) G by (intro swizzle_body_no_addr) auto
    have len': "length ?out' = ?N" using fit less.prems(3) by simp
    have dvd': "?n dvd ?N - (p + ?n)"
    proof -
      have "?N - p = (?N - (p + ?n)) + ?n" using fit by simp
      then show ?thesis using less.prems(2) by (metis dvd_add_left_iff dvd_refl)
    qed
    have ih: "swizzle_loop opts aT dT nA nD (int ?N) inData (int (p + ?n)) ?out' =
                Inr (take (p + ?n) ?out' @ map G [p + ?n..<?N])"
      using npos True fit len' dvd' by (intro less.hyps) auto
    have tk: "take (p + ?n) ?out' = take p out @ map G [p..<p + ?n]"
      using less.prems(3) fit by simp
    have spl: "[p..<?N] = [p..<p + ?n] @ [p + ?n..<?N]"
    proof -
      have "[p..<(p + ?n) + (?N - (p + ?n))] = [p..<p + ?n] @ [p + ?n..<(p + ?n) + (?N - (p + ?n))]"
        by (rule upt_add_eq_append) simp
      then show ?thesis using fit by simp
    qed
    have step: "int p + bytesPerWord opts = int (p + ?n)" using b by simp
    have "swizzle_loop opts aT dT nA nD (int ?N) inData (int p) out =
            swizzle_loop opts aT dT nA nD (int ?N) inData (int p + bytesPerWord opts) ?out'"
      using True b by (subst swizzle_loop.simps) (simp only: body of_nat_less_iff simp_thms if_True sum.case)
    also have "\<dots> = swizzle_loop opts aT dT nA nD (int ?N) inData (int (p + ?n)) ?out'"
      unfolding step ..
    also have "\<dots> = Inr ((take p out @ map G [p..<p + ?n]) @ map G [p + ?n..<?N])"
      unfolding ih tk ..
    also have "(take p out @ map G [p..<p + ?n]) @ map G [p + ?n..<?N] =
                 take p out @ map G ([p..<p + ?n] @ [p + ?n..<?N])"
      by simp
    finally show ?thesis unfolding spl [symmetric] .
  qed
qed

lemma and_not_mask_int: "(x::int) AND NOT (mask k) = x div 2 ^ k * 2 ^ k"
proof -
  have "x AND NOT (mask k) = push_bit k (drop_bit k x)"
    by (rule bit_eqI) (auto simp: bit_and_iff bit_not_iff bit_mask_iff bit_push_bit_iff bit_drop_bit_eq)
  then show ?thesis by (simp add: push_bit_eq_mult drop_bit_eq_div)
qed

lemma round_up_dvd: "b dvd n \<Longrightarrow> 0 < b \<Longrightarrow> round_up b n = n"
proof -
  assume "b dvd n" "0 < b"
  then obtain k where k: "n = b * k" by (auto elim: dvdE)
  have "(b * k + b - 1) div b = ((b - 1) + k * b) div b" by (simp add: algebra_simps)
  also have "\<dots> = (b - 1) div b + k"
    using \<open>0 < b\<close> by (subst div_mult_self1) auto
  also have "(b - 1) div b = 0" using \<open>0 < b\<close> by simp
  finally have "(b * k + b - 1) div b = k" by simp
  then show ?thesis by (simp add: round_up_def k)
qed

lemma pad_word_aligned:
  assumes "0 \<le> n" "bytesPerWord opts \<in> {1, 2, 4} \<or> (0 < bytesPerWord opts \<and> n mod bytesPerWord opts = 0)"
  shows "pad_word opts n =
           (round_up (bytesPerWord opts) n,
            if n mod bytesPerWord opts \<noteq> 0 then [UnalignedSize (bytesPerWord opts)] else [])"
proof (cases "n mod bytesPerWord opts = 0")
  case True
  then have "bytesPerWord opts dvd n" by auto
  moreover have "0 < bytesPerWord opts" using assms(2) by auto
  ultimately show ?thesis using True by (simp add: pad_word_def round_up_dvd)
next
  case False
  then have b: "bytesPerWord opts = 2 \<or> bytesPerWord opts = 4" using assms(2) by auto
  have a2: "(n + 1) AND - 2 = (1 + n) div 2 * 2"
    using and_not_mask_int [of "n + 1" 1] by (simp add: add.commute)
  have a4: "(n + 3) AND - 4 = (3 + n) div 4 * 4"
    using and_not_mask_int [of "n + 3" 2] by (simp add: add.commute mask_eq_exp_minus_1)
  from b show ?thesis
    using False by (auto simp: pad_word_def round_up_def a2 a4)
qed

lemma round_up_props:
  assumes "0 < b" "0 \<le> n"
  shows "n \<le> round_up b n" "b dvd round_up b n" "round_up b n < n + b"
proof -
  have e: "round_up b n = (n + b - 1) - (n + b - 1) mod b"
    unfolding round_up_def by (simp add: algebra_simps minus_mod_eq_mult_div)
  have m: "0 \<le> (n + b - 1) mod b" "(n + b - 1) mod b < b" using assms by auto
  show "n \<le> round_up b n" unfolding e using m by linarith
  show "b dvd round_up b n" by (simp add: round_up_def)
  show "round_up b n < n + b" unfolding e using m by linarith
qed

lemma ilog2_ge_1: "2 \<le> q \<Longrightarrow> 1 \<le> ilog2 q"
  using ilog2_nonneg [of "q div 2"] by (subst ilog2.simps) simp

lemma ilog2_le_32: "1 \<le> q \<Longrightarrow> q < 2 ^ 33 \<Longrightarrow> ilog2 q \<le> 32"
proof (rule ccontr)
  assume a: "1 \<le> q" "q < 2 ^ 33" "\<not> ilog2 q \<le> 32"
  then have "33 \<le> nat (ilog2 q)" by simp
  then have "(2::int) ^ 33 \<le> 2 ^ nat (ilog2 q)" by (intro power_increasing) auto
  with ilog2_bounds [OF a(1)] a(2) show False by linarith
qed

lemma address_width_ok:
  "2 \<le> q \<Longrightarrow> q < 2 ^ 33 \<Longrightarrow> \<not> (log2_trunc q < 1 \<or> log2_trunc q > 32)"
  using ilog2_ge_1 [of q] ilog2_le_32 [of q] by (simp add: log2_trunc_def)

lemma ilog2_ge_33: "2 ^ 33 \<le> q \<Longrightarrow> 33 \<le> ilog2 q"
proof (rule ccontr)
  assume a: "2 ^ 33 \<le> q" "\<not> 33 \<le> ilog2 q"
  then have "nat (ilog2 q + 1) \<le> 33" by simp
  then have "(2::int) ^ nat (ilog2 q + 1) \<le> 2 ^ 33" by (intro power_increasing) auto
  moreover have "q < 2 ^ nat (ilog2 q + 1)" using ilog2_bounds [of q] a(1) by simp
  ultimately show False using a(1) by linarith
qed

lemma address_width_bad:
  "q < 2 \<or> 2 ^ 33 \<le> q \<Longrightarrow> log2_trunc q < 1 \<or> log2_trunc q > 32"
proof -
  assume "q < 2 \<or> 2 ^ 33 \<le> q"
  then consider "q \<le> 0" | "q = 1" | "2 ^ 33 \<le> q" by linarith
  then show ?thesis
  proof cases
    case 1
    then show ?thesis by (simp add: log2_trunc_def)
  next
    case 2
    have "ilog2 1 = 0" by (subst ilog2.simps) simp
    then show ?thesis using 2 by (simp add: log2_trunc_def)
  next
    case 3
    then show ?thesis using ilog2_ge_33 [OF 3] by (simp add: log2_trunc_def)
  qed
qed

lemma parse_table_None [simp]: "parse_table None count type = (Inr (replicate 32 0), [])"
  by (simp add: parse_table_def)

lemma transform_no_addr:
  assumes ok: "calloc_ok e" "fread_ok e" "fwrite_ok e"
    and na: "addrBits opts = None" and b: "0 < bytesPerWord opts"
    and sz: "int (length file) \<le> inSize" "bytesPerWord opts dvd inSize"
    and G: "\<And>q i. q + nat (bytesPerWord opts) \<le> nat inSize \<Longrightarrow> i < nat (bytesPerWord opts) \<Longrightarrow>
              ucast (drop_bit (byte_shift opts i)
                 (word_data opts dT nD (read_input file inSize) (int q))) = G (q + i)"
  shows "transform opts e file inSize nA nD aT dT = Inr (map G [0..<nat inSize])"
proof -
  let ?inData = "read_input file inSize"
  have len: "length ?inData = nat inSize" using sz(1) by (simp add: read_input_def)
  have isz: "inSize = int (length ?inData)" using sz(1) len by simp
  have d: "nat (bytesPerWord opts) dvd length ?inData - 0"
    using sz b len by (simp add: nat_dvd_iff)
  have "swizzle_loop opts aT dT nA nD (int (length ?inData)) ?inData (int 0)
          (replicate (nat inSize) 0) = Inr (take 0 (replicate (nat inSize) 0) @ map G [0..<length ?inData])"
    using na b G d len by (intro swizzle_loop_no_addr) auto
  then have "swizzle_loop opts aT dT nA nD inSize ?inData 0 (replicate (nat inSize) 0)
               = Inr (map G [0..<nat inSize])"
    using isz len by simp
  then show ?thesis using ok by (simp add: transform_def)
qed

subsection \<open>One pass of the loop against the word of the specification\<close>

lemma bit_le_value:
  "bit (le_value bs) m \<longleftrightarrow> m < 64 \<and> m div 8 < length bs \<and> bit (bs ! (m div 8)) (m mod 8)"
proof (induction bs arbitrary: m)
  case Nil
  then show ?case by simp
next
  case (Cons b bs)
  have disj: "(ucast b :: ulong) AND push_bit 8 (le_value bs) = 0"
    by (rule bit_eqI) (auto simp: bit_and_iff bit_ucast_iff bit_push_bit_iff dest: bit_imp_le_length)
  have "le_value (b # bs) = ucast b + push_bit 8 (le_value bs)"
    by (simp add: push_bit_eq_mult)
  also have "\<dots> = ucast b OR push_bit 8 (le_value bs)"
    using disj by (rule disjunctive_add_eq_or)
  finally have e: "le_value (b # bs) = ucast b OR push_bit 8 (le_value bs)" .
  show ?case
  proof (cases "m < 8")
    case True
    then show ?thesis
      unfolding e by (auto simp: bit_or_iff bit_ucast_iff bit_push_bit_iff dest: bit_imp_le_length)
  next
    case False
    then have d: "m div 8 = Suc ((m - 8) div 8)" "m mod 8 = (m - 8) mod 8"
      by (auto simp: le_div_geq le_mod_geq)
    show ?thesis
      unfolding e using False
      by (auto simp: bit_or_iff bit_ucast_iff bit_push_bit_iff Cons.IH d dest: bit_imp_le_length)
  qed
qed

lemma bit_shifted_byte:
  assumes "m < 32" "\<sigma> \<le> 3"
  shows "bit (scast (push_bit (8 * \<sigma>) (ucast (b :: byte) :: c_int)) :: ulong) m
           \<longleftrightarrow> m div 8 = \<sigma> \<and> bit b (m mod 8)"
proof -
  have a: "8 * \<sigma> \<le> m \<and> m - 8 * \<sigma> < 8 \<longleftrightarrow> m div 8 = \<sigma>" by arith
  have c: "m div 8 = \<sigma> \<Longrightarrow> m - 8 * \<sigma> = m mod 8" by arith
  show ?thesis
    using assms a c
    by (auto simp add: bit_word_scast_iff bit_push_bit_iff bit_ucast_iff dest: bit_imp_le_length)
qed

lemma byte_shift_eq:
  assumes "j < nat (bytesPerWord opts)"
  shows "byte_shift opts j = 8 * (if bigEndian opts then nat (bytesPerWord opts) - 1 - j else j)"
  using assms by (simp add: byte_shift_def)

lemma bit_assemble_low:
  assumes b: "bytesPerWord opts \<le> 4" and m: "m < 32"
  shows "bit (assemble opts inData pos) m \<longleftrightarrow>
           m div 8 < nat (bytesPerWord opts)
           \<and> bit (inData ! (nat pos + (if bigEndian opts then nat (bytesPerWord opts) - 1 - m div 8
                                         else m div 8))) (m mod 8)"
proof -
  let ?n = "nat (bytesPerWord opts)"
  let ?\<sigma> = "\<lambda>j. if bigEndian opts then ?n - 1 - j else j"
  have each: "bit (scast (push_bit (byte_shift opts j) (ucast (inData ! (nat pos + j)) :: c_int)) :: ulong) m
        \<longleftrightarrow> m div 8 = ?\<sigma> j \<and> bit (inData ! (nat pos + j)) (m mod 8)" if j: "j < ?n" for j
  proof -
    have "?\<sigma> j \<le> 3" using b j by auto
    then show ?thesis
      unfolding byte_shift_eq [OF j] using m by (rule bit_shifted_byte [rotated])
  qed
  have "bit (assemble opts inData pos) m \<longleftrightarrow>
          (\<exists>j<?n. m div 8 = ?\<sigma> j \<and> bit (inData ! (nat pos + j)) (m mod 8))"
    unfolding bit_assemble using each by auto
  also have "\<dots> \<longleftrightarrow> m div 8 < ?n \<and> bit (inData ! (nat pos + ?\<sigma> (m div 8))) (m mod 8)"
  proof (cases "bigEndian opts")
    case False
    then show ?thesis by auto
  next
    case True
    show ?thesis
    proof
      assume "\<exists>j<?n. m div 8 = ?\<sigma> j \<and> bit (inData ! (nat pos + j)) (m mod 8)"
      then obtain j where j: "j < ?n" "m div 8 = ?n - 1 - j" "bit (inData ! (nat pos + j)) (m mod 8)"
        using True by auto
      then have "m div 8 < ?n" "?n - 1 - m div 8 = j" by auto
      then show "m div 8 < ?n \<and> bit (inData ! (nat pos + ?\<sigma> (m div 8))) (m mod 8)"
        using j True by simp
    next
      assume a: "m div 8 < ?n \<and> bit (inData ! (nat pos + ?\<sigma> (m div 8))) (m mod 8)"
      then have "?n - 1 - m div 8 < ?n" "m div 8 = ?n - 1 - (?n - 1 - m div 8)" by auto
      moreover have "bit (inData ! (nat pos + (?n - 1 - m div 8))) (m mod 8)"
        using a by (simp only: True if_True)
      ultimately have "?n - 1 - m div 8 < ?n \<and> m div 8 = ?\<sigma> (?n - 1 - m div 8)
          \<and> bit (inData ! (nat pos + (?n - 1 - m div 8))) (m mod 8)"
        using True by (simp only: if_True simp_thms)
      then show "\<exists>j<?n. m div 8 = ?\<sigma> j \<and> bit (inData ! (nat pos + j)) (m mod 8)"
        by (rule exI)
    qed
  qed
  finally show ?thesis .
qed

lemma bit_spec_word_value:
  assumes "nat pos + n \<le> length inData"
  shows "bit (spec_word_value big (take n (drop (nat pos) inData))) m \<longleftrightarrow>
           m < 64 \<and> m div 8 < n
           \<and> bit (inData ! (nat pos + (if big then n - 1 - m div 8 else m div 8))) (m mod 8)"
proof -
  let ?bytes = "take n (drop (nat pos) inData)"
  have len: "length ?bytes = n" using assms by simp
  have nth: "?bytes ! k = inData ! (nat pos + k)" if "k < n" for k
    using that assms by simp
  show ?thesis
  proof (cases big)
    case False
    then show ?thesis
      using nth assms by (auto simp: spec_word_value_def bit_le_value)
  next
    case True
    have "rev ?bytes ! k = inData ! (nat pos + (n - 1 - k))" if "k < n" for k
      using that len nth [of "n - 1 - k"] by (simp add: rev_nth del: length_take length_drop)
    then show ?thesis
      using True assms by (auto simp: spec_word_value_def bit_le_value)
  qed
qed

lemma assemble_agrees_low:
  assumes "bytesPerWord opts \<le> 4" "m < 32" "nat pos + nat (bytesPerWord opts) \<le> length inData"
  shows "bit (assemble opts inData pos) m =
         bit (spec_word_value (bigEndian opts)
                (take (nat (bytesPerWord opts)) (drop (nat pos) inData))) m"
  using assms by (simp add: bit_assemble_low bit_spec_word_value)

lemma bit_assemble_high:
  assumes "32 \<le> m"
  shows "bit (assemble opts inData pos) m \<longleftrightarrow> m < 64 \<and> bit (assemble opts inData pos) 31"
  unfolding bit_assemble using assms
  by (auto simp add: bit_word_scast_iff dest: bit_imp_le_length)

lemma assemble_eq_spec:
  assumes b: "1 \<le> bytesPerWord opts" "bytesPerWord opts \<le> 4"
    and fit: "nat pos + nat (bytesPerWord opts) \<le> length inData"
    and nosign: "bytesPerWord opts < 4
                 \<or> \<not> bit (inData ! (nat pos + (if bigEndian opts then 0 else 3))) 7"
  shows "assemble opts inData pos =
         spec_word_value (bigEndian opts) (take (nat (bytesPerWord opts)) (drop (nat pos) inData))"
proof (rule bit_eqI)
  fix m
  let ?n = "nat (bytesPerWord opts)"
  show "bit (assemble opts inData pos) m =
        bit (spec_word_value (bigEndian opts) (take ?n (drop (nat pos) inData))) m"
  proof (cases "m < 32")
    case True
    then show ?thesis using b fit by (intro assemble_agrees_low) auto
  next
    case False
    have top: "\<not> bit (assemble opts inData pos) 31"
    proof (cases "bytesPerWord opts < 4")
      case True
      then have "\<not> 3 < nat (bytesPerWord opts)" by simp
      then show ?thesis using b by (simp add: bit_assemble_low)
    next
      case False
      then have n: "bytesPerWord opts = 4" using b by simp
      then show ?thesis using nosign b by (auto simp add: bit_assemble_low)
    qed
    have "\<not> bit (assemble opts inData pos) m"
      using False top bit_assemble_high [of m opts inData pos] by simp
    moreover have "\<not> bit (spec_word_value (bigEndian opts) (take ?n (drop (nat pos) inData))) m"
      using False b fit by (simp add: bit_spec_word_value) linarith
    ultimately show ?thesis by simp
  qed
qed

lemma spec_word_bytes_eq:
  "spec_word_bytes (bigEndian opts) (nat (bytesPerWord opts)) v =
     map (\<lambda>i. ucast (drop_bit (byte_shift opts i) v)) [0..<nat (bytesPerWord opts)]"
proof (cases "bigEndian opts")
  case False
  then show ?thesis by (simp add: spec_word_bytes_def byte_shift_def)
next
  case True
  show ?thesis
    using True
    by (intro nth_equalityI) (auto simp: spec_word_bytes_def byte_shift_def rev_nth)
qed

lemma low_bytes_cong:
  assumes "\<And>m. m < 32 \<Longrightarrow> bit (x :: ulong) m = bit (y :: ulong) m" "s \<le> 24"
  shows "(ucast (drop_bit s x) :: byte) = ucast (drop_bit s y)"
proof (rule bit_eqI)
  fix m
  show "bit (ucast (drop_bit s x) :: byte) m = bit (ucast (drop_bit s y) :: byte) m"
  proof (cases "m < 8")
    case True
    then have "s + m < 32" using assms(2) by simp
    then show ?thesis using assms(1) [of "s + m"] by (simp add: bit_ucast_iff bit_drop_bit_eq)
  next
    case False
    then show ?thesis by (simp add: bit_ucast_iff)
  qed
qed

text \<open>
  One pass of the loop writes, at the destination offset, the word of the specification,
  provided the accesses are in bounds and, when a data permutation is active on four-byte
  words, the most significant byte of the word is below \<open>0x80\<close>.
\<close>

lemma swizzle_body_writes_spec_word:
  assumes b: "1 \<le> bytesPerWord opts" "bytesPerWord opts \<le> 4"
    and nD: "numDataBits = 8 * bytesPerWord opts"
    and pos: "0 \<le> pos" "nat pos + nat (bytesPerWord opts) \<le> length inData"
    and out: "0 \<le> out_addr opts addrTable numAddrBits pos"
      "nat (out_addr opts addrTable numAddrBits pos) + nat (bytesPerWord opts) \<le> length outData"
    and nosign: "dataBits opts = None \<or> bytesPerWord opts < 4
                 \<or> \<not> bit (inData ! (nat pos + (if bigEndian opts then 0 else 3))) 7"
  shows "swizzle_body opts addrTable dataTable numAddrBits numDataBits inData pos outData =
           Inr (take (nat (out_addr opts addrTable numAddrBits pos)) outData
                @ spec_word opts dataTable (take (nat (bytesPerWord opts)) (drop (nat pos) inData))
                @ drop (nat (out_addr opts addrTable numAddrBits pos) + nat (bytesPerWord opts))
                    outData)"
proof -
  let ?n = "nat (bytesPerWord opts)"
  let ?a = "out_addr opts addrTable numAddrBits pos"
  let ?bytes = "take ?n (drop (nat pos) inData)"
  let ?data = "word_data opts dataTable numDataBits inData pos"
  let ?v = "if dataBits opts \<noteq> None
            then swizzleWord (spec_word_value (bigEndian opts) ?bytes) dataTable (8 * int (length ?bytes))
            else spec_word_value (bigEndian opts) ?bytes"
  have len: "length ?bytes = ?n" using pos by simp
  have inb: "\<not> int (length inData) < pos + bytesPerWord opts" using pos b by linarith
  have outb: "\<not> (?a < 0 \<or> int (length outData) < ?a + bytesPerWord opts)"
    using out b by linarith
  have body: "swizzle_body opts addrTable dataTable numAddrBits numDataBits inData pos outData =
                Inr (disassemble opts ?data ?a outData)"
    using inb outb by (simp add: swizzle_body_def Let_def)
  have bytes: "(ucast (drop_bit (byte_shift opts i) ?data) :: byte) =
               ucast (drop_bit (byte_shift opts i) ?v)" if i: "i < ?n" for i
  proof (cases "dataBits opts = None")
    case True
    have "byte_shift opts i \<le> 24" using byte_shift_props [OF b(2) i] by simp
    moreover have "bit (assemble opts inData pos) m = bit (spec_word_value (bigEndian opts) ?bytes) m"
      if "m < 32" for m
      using b that pos by (intro assemble_agrees_low) auto
    ultimately have "(ucast (drop_bit (byte_shift opts i) (assemble opts inData pos)) :: byte) =
        ucast (drop_bit (byte_shift opts i) (spec_word_value (bigEndian opts) ?bytes))"
      by (intro low_bytes_cong) auto
    then show ?thesis using True by (simp add: word_data_def)
  next
    case False
    then have "assemble opts inData pos = spec_word_value (bigEndian opts) ?bytes"
      using b pos nosign by (intro assemble_eq_spec) auto
    moreover have "numDataBits = 8 * int (length ?bytes)" using nD b len by simp
    ultimately show ?thesis using False by (simp add: word_data_def)
  qed
  define A where "A = (\<lambda>i. ucast (drop_bit (byte_shift opts i) ?data) :: byte)"
  define B where "B = (\<lambda>i. ucast (drop_bit (byte_shift opts i) ?v) :: byte)"
  have AB: "A i = B i" if "i < ?n" for i
    using bytes [OF that] by (simp only: A_def B_def)
  have mp: "map A [0..<?n] = map B [0..<?n]"
    using AB by (intro map_ext) simp
  have "disassemble opts ?data ?a outData =
          take (nat ?a) outData @ map A [0..<?n] @ drop (nat ?a + ?n) outData"
    unfolding A_def using out by (rule disassemble_eq)
  also have "map A [0..<?n] = map B [0..<?n]" by (rule mp)
  also have "map B [0..<?n] = spec_word opts dataTable ?bytes"
    unfolding B_def spec_word_def len spec_word_bytes_eq ..
  finally show ?thesis using body by simp
qed

section \<open>Claims about the driver\<close>

text \<open>
  Claim C3, as the code has it. With neither spec supplied, \<^verbatim>\<open>bytesPerWord\<close> from 1 to 4
  (for 3 only when the file size is a multiple of 3) and either byte order, a file whose
  size rounded up to whole words is at least two words and fewer than \<open>2 ^ 33\<close> words
  is written back unchanged, followed by zero bytes up to the next multiple of
  \<^verbatim>\<open>bytesPerWord\<close>. Every other file, of fewer than two words or of \<open>2 ^ 33\<close> words
  or more, is rejected with the address-width error and nothing is written. In both cases
  the unaligned-size warning is emitted exactly when the size is not a multiple of
  \<^verbatim>\<open>bytesPerWord\<close>.
\<close>

theorem swizzle_identity:
  assumes ok: "all_ok e file"
    and none: "addrBits opts = None" "dataBits opts = None"
    and bpw: "1 \<le> bytesPerWord opts" "bytesPerWord opts \<le> 4"
    and three: "bytesPerWord opts = 3 \<longrightarrow> int (length file) mod 3 = 0"
  shows "swizzle opts e =
           (if 2 * bytesPerWord opts \<le> round_up (bytesPerWord opts) (int (length file))
               \<and> round_up (bytesPerWord opts) (int (length file)) < 2 ^ 33 * bytesPerWord opts
            then Inr (file @ replicate (nat (round_up (bytesPerWord opts) (int (length file)))
                                         - length file) 0)
            else Inl AddressWidthError,
            if int (length file) mod bytesPerWord opts \<noteq> 0
            then [UnalignedSize (bytesPerWord opts)] else [])"
proof -
  let ?b = "bytesPerWord opts"
  let ?L = "int (length file)"
  let ?R = "round_up ?b ?L"
  let ?w = "if ?L mod ?b \<noteq> 0 then [UnalignedSize ?b] else []"
  have bpos: "0 < ?b" using bpw by simp
  have p1: "pad_pow2 opts ?L = (?L, [])" using none by (simp add: pad_pow2_keep)
  have "?b \<in> {1, 2, 4} \<or> (0 < ?b \<and> ?L mod ?b = 0)"
    using bpw three by (cases "?b = 3") auto
  then have p2: "pad_word opts ?L = (?R, ?w)" by (intro pad_word_aligned) auto
  have R: "?L \<le> ?R" "?b dvd ?R" using round_up_props [OF bpos, of ?L] by auto
  obtain k where k: "?R = ?b * k" using R(2) by (auto elim: dvdE)
  have dk: "?R div ?b = k" using k bpos by simp
  show ?thesis
  proof (cases "2 * ?b \<le> ?R \<and> ?R < 2 ^ 33 * ?b")
    case True
    then have "2 \<le> k" "k < 2 ^ 33" using bpos unfolding k by auto
    then have q: "2 \<le> ?R div ?b" "?R div ?b < 2 ^ 33" using dk by auto
    have width: "\<not> (log2_trunc (?R div ?b) < 1 \<or> log2_trunc (?R div ?b) > 32)"
      using q by (rule address_width_ok)
    have G: "ucast (drop_bit (byte_shift opts i)
               (word_data opts dT nD (read_input file ?R) (int q))) = read_input file ?R ! (q + i)"
      if "i < nat ?b" for q i dT nD
      using none bpw that by (simp add: word_data_def byte_of_assemble)
    have tr: "transform opts e file ?R nA nD aT dT =
                Inr (map ((!) (read_input file ?R)) [0..<nat ?R])"
      for nA nD aT dT
      using ok none bpos R G by (intro transform_no_addr) (auto simp: all_ok_def)
    have len: "length (read_input file ?R) = nat ?R" using R(1) by (simp add: read_input_def)
    have out: "map ((!) (read_input file ?R)) [0..<nat ?R] = read_input file ?R"
      using len by (metis map_nth)
    have "swizzle opts e = (Inr (file @ replicate (nat ?R - length file) 0), ?w)"
      using ok width none
      by (simp add: swizzle_def all_ok_def p1 p2 Let_def tr out) (simp add: read_input_def)
    then show ?thesis using True by (simp only: if_True simp_thms)
  next
    case False
    then have "k < 2 \<or> 2 ^ 33 \<le> k"
    proof -
      have "\<not> (2 \<le> k \<and> k < 2 ^ 33)"
      proof
        assume "2 \<le> k \<and> k < 2 ^ 33"
        then have "2 * ?b \<le> ?b * k" "?b * k < 2 ^ 33 * ?b" using bpos by auto
        with False show False unfolding k by simp
      qed
      then show ?thesis by linarith
    qed
    then have "?R div ?b < 2 \<or> 2 ^ 33 \<le> ?R div ?b" using dk by simp
    then have width: "log2_trunc (?R div ?b) < 1 \<or> log2_trunc (?R div ?b) > 32"
      by (rule address_width_bad)
    have "swizzle opts e = (Inl AddressWidthError, ?w)"
      using ok width by (simp add: swizzle_def all_ok_def p1 p2 Let_def)
    then show ?thesis using False by (simp only: if_False simp_thms)
  qed
qed

theorem swizzle_identity_witness:
  "swizzle \<lparr>addrBits = None, dataBits = None, bytesPerWord = 4, bigEndian = True\<rparr>
           \<lparr>inFile = Some [1, 2, 3, 0x84, 5, 6, 7], outFile_ok = True, ftell_ok = True,
             calloc_ok = True, fread_ok = True, fwrite_ok = True\<rparr>
     = (Inr [1, 2, 3, 0x84, 5, 6, 7, 0], [UnalignedSize 4])
   \<and> swizzle \<lparr>addrBits = None, dataBits = None, bytesPerWord = 4, bigEndian = True\<rparr>
           \<lparr>inFile = Some [1, 2, 3], outFile_ok = True, ftell_ok = True,
             calloc_ok = True, fread_ok = True, fwrite_ok = True\<rparr>
     = (Inl AddressWidthError, [UnalignedSize 4])"
proof -
  have r: "round_up 4 7 = 8" "round_up 4 3 = 4" by (simp_all add: round_up_def)
  show ?thesis
    using swizzle_identity [of
        "\<lparr>inFile = Some [1, 2, 3, 0x84, 5, 6, 7], outFile_ok = True, ftell_ok = True,
             calloc_ok = True, fread_ok = True, fwrite_ok = True\<rparr>"
        "[1, 2, 3, 0x84, 5, 6, 7]"
        "\<lparr>addrBits = None, dataBits = None, bytesPerWord = 4, bigEndian = True\<rparr>"]
      swizzle_identity [of
        "\<lparr>inFile = Some [1, 2, 3], outFile_ok = True, ftell_ok = True,
             calloc_ok = True, fread_ok = True, fwrite_ok = True\<rparr>"
        "[1, 2, 3]"
        "\<lparr>addrBits = None, dataBits = None, bytesPerWord = 4, bigEndian = True\<rparr>"]
    by (simp add: all_ok_def r)
qed

text \<open>
  The claim as it was stated fails for a file of a single word: the address width is 0,
  and the run stops with the address-width error before anything is written.
\<close>

theorem swizzle_identity_one_word_counterexample:
  "swizzle \<lparr>addrBits = None, dataBits = None, bytesPerWord = 1, bigEndian = False\<rparr>
           \<lparr>inFile = Some [0x41], outFile_ok = True, ftell_ok = True, calloc_ok = True,
             fread_ok = True, fwrite_ok = True\<rparr>
     = (Inl AddressWidthError, [])"
  by code_simp

text \<open>
  With three-byte words the mask \<^verbatim>\<open>~(bytesPerWord - 1)\<close> does not round to a multiple of
  3: for 8 bytes the working size stays 8, and the pass at position 6 reads the byte at
  index 8 of an 8-byte buffer.
\<close>

lemma swizzle_three_byte_words_overrun:
  "swizzle \<lparr>addrBits = None, dataBits = None, bytesPerWord = 3, bigEndian = False\<rparr>
           \<lparr>inFile = Some [1, 2, 3, 4, 5, 6, 7, 8], outFile_ok = True, ftell_ok = True,
             calloc_ok = True, fread_ok = True, fwrite_ok = True\<rparr>
     = (Inl OutOfBounds, [UnalignedSize 3])"
  by code_simp

lemma parse_reversal8:
  "parse_table (Some ''0,1,2,3,4,5,6,7'') 8 ''data'' = (Inr reversal8, [])"
  by code_simp

lemma reversal8_nth: "j < 8 \<Longrightarrow> reversal8 ! j = 7 - int j"
proof -
  assume "j < 8"
  then have "j \<in> {0, 1, 2, 3, 4, 5, 6, 7}" by auto
  then show ?thesis by (auto simp: reversal8_def)
qed

lemma swizzleWord_reversal8:
  "(ucast (swizzleWord (ucast (b :: byte)) reversal8 8) :: byte) = word_reverse b"
proof (rule bit_eqI)
  fix m
  have sw: "bit (swizzleWord (ucast b) reversal8 (int 8)) k \<longleftrightarrow>
              k < 8 \<and> bit (ucast b :: ulong) (nat (reversal8 ! k))" for k
    by (intro bit_swizzleWord) (auto simp: reversal8_nth)
  show "bit (ucast (swizzleWord (ucast b) reversal8 8) :: byte) m = bit (word_reverse b) m"
  proof (cases "m < 8")
    case True
    then have "nat (reversal8 ! m) = 8 - Suc m" by (simp add: reversal8_nth)
    moreover have "7 - m < 64" by simp
    ultimately show ?thesis
      using True sw [of m] by (simp add: bit_ucast_iff bit_word_reverse_iff)
  next
    case False
    then show ?thesis by (simp add: bit_ucast_iff bit_word_reverse_iff)
  qed
qed

lemma assemble_one_byte:
  assumes "bytesPerWord opts = 1"
  shows "assemble opts inData pos = ucast (inData ! nat pos)"
proof (rule bit_eqI)
  fix m
  have s: "byte_shift opts 0 = 0" using assms by (simp add: byte_shift_def)
  show "bit (assemble opts inData pos) m = bit (ucast (inData ! nat pos) :: ulong) m"
    unfolding bit_assemble using assms
    by (auto simp: s bit_word_scast_iff bit_ucast_iff dest: bit_imp_le_length)
qed

lemma map_nth_fun: "map (\<lambda>q. f (xs ! q)) [0..<length xs] = map f xs"
  by (rule nth_equalityI) simp_all

text \<open>
  Claim C8. The data spec \<^verbatim>\<open>0,1,2,3,4,5,6,7\<close> parses, for 8 data bits, to the table
  \<open>[7, 6, 5, 4, 3, 2, 1, 0]\<close>: the first token lands at bit 7. With one byte per word
  and no address spec, every run that produces output (the file has at least two bytes)
  writes the bit reversal of each input byte at the same position; \<open>0x01\<close> becomes
  \<open>0x80\<close> and \<open>0xF0\<close> becomes \<open>0x0F\<close>.
\<close>

theorem swizzle_bit_reversal:
  assumes ok: "all_ok e file"
    and opts: "addrBits opts = None" "dataBits opts = Some ''0,1,2,3,4,5,6,7''"
      "bytesPerWord opts = 1"
  shows "fst (parseBits ''0,1,2,3,4,5,6,7'' (replicate 32 0) 8 ''data'') = None
       \<and> take 8 (dest_of (snd (parseBits ''0,1,2,3,4,5,6,7'' (replicate 32 0) 8 ''data'')))
           = [7, 6, 5, 4, 3, 2, 1, 0]
       \<and> swizzle opts e =
           (if 2 \<le> length file \<and> int (length file) < 2 ^ 33
            then (Inr (map word_reverse file), [])
            else (Inl AddressWidthError, []))
       \<and> word_reverse (0x01 :: byte) = 0x80 \<and> word_reverse (0xF0 :: byte) = 0x0F"
proof -
  let ?L = "int (length file)"
  have p: "fst (parseBits ''0,1,2,3,4,5,6,7'' (replicate 32 0) 8 ''data'') = None"
    "take 8 (dest_of (snd (parseBits ''0,1,2,3,4,5,6,7'' (replicate 32 0) 8 ''data'')))
           = [7, 6, 5, 4, 3, 2, 1, 0]"
    by code_simp+
  have r: "word_reverse (0x01 :: byte) = 0x80" "word_reverse (0xF0 :: byte) = 0x0F"
    by code_simp+
  have p1: "pad_pow2 opts ?L = (?L, [])" using opts by (simp add: pad_pow2_keep)
  have p2: "pad_word opts ?L = (?L, [])" using opts by (simp add: pad_word_def)
  have sw: "swizzle opts e =
           (if 2 \<le> length file \<and> int (length file) < 2 ^ 33
            then (Inr (map word_reverse file), [])
            else (Inl AddressWidthError, []))"
  proof (cases "2 \<le> length file \<and> int (length file) < 2 ^ 33")
    case True
    then have width: "\<not> (log2_trunc (?L div 1) < 1 \<or> log2_trunc (?L div 1) > 32)"
      by (intro address_width_ok) auto
    have ri: "read_input file ?L = file" by (simp add: read_input_def)
    have G: "ucast (drop_bit (byte_shift opts i)
               (word_data opts reversal8 8 (read_input file ?L) (int q))) = word_reverse (file ! (q + i))"
      if "i < nat (bytesPerWord opts)" for q i
    proof -
      have i: "i = 0" using that opts by simp
      have s: "byte_shift opts 0 = 0" using opts by (simp add: byte_shift_def)
      show ?thesis
        using opts by (simp add: i s ri word_data_def assemble_one_byte swizzleWord_reversal8)
    qed
    have tr: "transform opts e file ?L nA 8 aT reversal8 =
                Inr (map (\<lambda>q. word_reverse (file ! q)) [0..<nat ?L])" for nA aT
      using ok opts G by (intro transform_no_addr) (auto simp: all_ok_def)
    show ?thesis
      using True ok width opts
      by (simp add: swizzle_def all_ok_def p1 p2 Let_def parse_reversal8 tr map_nth_fun)
  next
    case False
    then have "?L div 1 < 2 \<or> 2 ^ 33 \<le> ?L div 1" by auto
    then have "log2_trunc (?L div 1) < 1 \<or> log2_trunc (?L div 1) > 32"
      by (rule address_width_bad)
    then show ?thesis
      using False ok opts by (simp add: swizzle_def all_ok_def p1 p2 Let_def)
  qed
  show ?thesis using p r sw by simp
qed

theorem swizzle_bit_reversal_witness:
  "swizzle \<lparr>addrBits = None, dataBits = Some ''0,1,2,3,4,5,6,7'', bytesPerWord = 1,
             bigEndian = False\<rparr>
           \<lparr>inFile = Some [0x01, 0xF0], outFile_ok = True, ftell_ok = True, calloc_ok = True,
             fread_ok = True, fwrite_ok = True\<rparr>
     = (Inr [0x80, 0x0F], [])"
proof -
  have r: "word_reverse (0x01 :: byte) = 0x80" "word_reverse (0xF0 :: byte) = 0x0F"
    by code_simp+
  show ?thesis
    using swizzle_bit_reversal [of
        "\<lparr>inFile = Some [0x01, 0xF0], outFile_ok = True, ftell_ok = True, calloc_ok = True,
             fread_ok = True, fwrite_ok = True\<rparr>"
        "[0x01, 0xF0]"
        "\<lparr>addrBits = None, dataBits = Some ''0,1,2,3,4,5,6,7'', bytesPerWord = 1,
             bigEndian = False\<rparr>"]
    by (simp add: all_ok_def r)
qed

text \<open>
  Claim C1 says that each pass of the driver writes, at the destination offset, the word
  assembled from the input bytes, permuted by the data table and taken apart again. The
  code differs for four-byte words whose most significant byte is \<open>0x80\<close> or more:
  the byte is shifted as an \<^verbatim>\<open>int\<close>, so the assembled value is sign-extended to 64 bits,
  and \<^verbatim>\<open>swizzleWord\<close> moves the extension into the result. For the little-endian word
  \<open>00 00 00 80\<close> under the bit reversal of 32 bits the driver writes \<open>FF FF FF FF\<close>;
  the word of the claim is \<open>01 00 00 00\<close>. (\<open>swizzle_body_writes_spec_word\<close> above is
  the claim for every other pass that stays inside the buffers.)
\<close>

theorem swizzle_sign_extended_word:
  "swizzle \<lparr>addrBits = None,
             dataBits = Some ''0,1,2,3,4,5,6,7,8,9,10,11,12,13,14,15,16,17,18,19,20,21,22,23,24,25,26,27,28,29,30,31'',
             bytesPerWord = 4, bigEndian = False\<rparr>
           \<lparr>inFile = Some [0, 0, 0, 0x80, 0, 0, 0, 0], outFile_ok = True, ftell_ok = True,
             calloc_ok = True, fread_ok = True, fwrite_ok = True\<rparr>
     = (Inr [0xFF, 0xFF, 0xFF, 0xFF, 0, 0, 0, 0], [])
   \<and> parse_table (Some ''0,1,2,3,4,5,6,7,8,9,10,11,12,13,14,15,16,17,18,19,20,21,22,23,24,25,26,27,28,29,30,31'')
         32 ''data'' = (Inr reversal32, [])
   \<and> assemble \<lparr>addrBits = None, dataBits = None, bytesPerWord = 4, bigEndian = False\<rparr>
         [0, 0, 0, 0x80, 0, 0, 0, 0] 0 = 0xFFFFFFFF80000000
   \<and> spec_word_value False [0, 0, 0, 0x80] = 0x80000000
   \<and> spec_word \<lparr>addrBits = None, dataBits = Some [], bytesPerWord = 4, bigEndian = False\<rparr>
         reversal32 [0, 0, 0, 0x80] = [0x01, 0, 0, 0]"
  by code_simp

end
